theory Spec2Isabelle
  imports Main "HOL-Library.Word" "HOL-Library.Char_ord" "HOL-Library.List_Lexorder"
begin

unbundle bit_operations_syntax

section \<open>JSON documents\<close>

text \<open>
  Modelled from the spec: \<^verbatim>\<open>json.hpp\<close> (the JSON library both headers include) is
  missing from the sources, so the document type, \<^verbatim>\<open>operator[]\<close>, \<^verbatim>\<open>size\<close>,
  \<^verbatim>\<open>diff\<close> and \<^verbatim>\<open>patch\<close> are written here after the spec's data model (section 3:
  a structured document, a Diff an ordered sequence of add, remove and replace
  operations with a pointer path, produced by comparing the previous with the next
  encoded State) and the RFC 6902 patch format the header comment of \<^verbatim>\<open>server.h\<close>
  names. An object is a \<^verbatim>\<open>std::map\<close>: its keys are unique and kept in ascending
  order, here an association list with strictly ascending keys (\<open>wf_json\<close>).
  Numbers are integers; floating-point numbers are left out.
\<close>

datatype json =
    JNull
  | JBool bool
  | JInt int
  | JString string
  | JArray "json list"
  | JObject "(string \<times> json) list"

fun wf_json :: "json \<Rightarrow> bool"
  and wf_members :: "(string \<times> json) list \<Rightarrow> bool"
  and wf_elems :: "json list \<Rightarrow> bool" where
  "wf_json (JArray xs) = wf_elems xs"
| "wf_json (JObject kvs) = (sorted_wrt (<) (map fst kvs) \<and> wf_members kvs)"
| "wf_json JNull = True"
| "wf_json (JBool b) = True"
| "wf_json (JInt n) = True"
| "wf_json (JString s) = True"
| "wf_members [] = True"
| "wf_members (kv # kvs) = (wf_json (snd kv) \<and> wf_members kvs)"
| "wf_elems [] = True"
| "wf_elems (x # xs) = (wf_json x \<and> wf_elems xs)"

datatype error =
    EncodeError  \<comment> \<open>\<^verbatim>\<open>to_json\<close> of the data type threw\<close>
  | TypeError    \<comment> \<open>\<^verbatim>\<open>operator[]\<close> with a key on a document that is neither null nor an object\<close>
  | RegexError   \<comment> \<open>\<^verbatim>\<open>std::regex\<close> rejected the pattern\<close>
  | ParseError   \<comment> \<open>a patch operation or a pointer path is malformed\<close>
  | OutOfRange   \<comment> \<open>a pointer path leads to no member or element\<close>
  | PublishError \<comment> \<open>\<^verbatim>\<open>Publish\<close> of the backend threw\<close>

text \<open>Modelled from the spec: \<^verbatim>\<open>std::map::operator[]\<close> followed by an assignment;
  the entry is overwritten, or inserted at its place in the key order.\<close>

fun map_assign :: "string \<Rightarrow> json \<Rightarrow> (string \<times> json) list \<Rightarrow> (string \<times> json) list" where
  "map_assign k v [] = [(k, v)]"
| "map_assign k v ((k', v') # kvs) =
     (if k = k' then (k, v) # kvs
      else if k < k' then (k, v) # (k', v') # kvs
      else (k', v') # map_assign k v kvs)"

text \<open>Modelled from the spec: \<^verbatim>\<open>j[key] = v\<close> on a document. A null document becomes
  an object, an object gets the member, every other type throws.\<close>

fun json_assign :: "json \<Rightarrow> string \<Rightarrow> json \<Rightarrow> error + json" where
  "json_assign JNull k v = Inr (JObject [(k, v)])"
| "json_assign (JObject kvs) k v = Inr (JObject (map_assign k v kvs))"
| "json_assign j k v = Inl TypeError"

text \<open>Modelled from the spec: \<^verbatim>\<open>size()\<close> of a document.\<close>

fun json_size :: "json \<Rightarrow> nat" where
  "json_size JNull = 0"
| "json_size (JArray xs) = length xs"
| "json_size (JObject kvs) = length kvs"
| "json_size j = 1"

text \<open>The members of an object; a document of another type has none.\<close>

fun json_members :: "json \<Rightarrow> (string \<times> json) list" where
  "json_members (JObject kvs) = kvs"
| "json_members j = []"

subsection \<open>Structural diff\<close>

text \<open>Modelled from the spec: \<^verbatim>\<open>std::to_string\<close> of an array index.\<close>

fun to_string :: "nat \<Rightarrow> string" where
  "to_string n =
     (if n < 10 then [char_of (48 + n)]
      else to_string (n div 10) @ [char_of (48 + n mod 10)])"

declare to_string.simps [simp del]

text \<open>Modelled from the spec: the escaping of a key inside a pointer path
  (\<^verbatim>\<open>~\<close> becomes \<^verbatim>\<open>~0\<close>, \<^verbatim>\<open>/\<close> becomes \<^verbatim>\<open>~1\<close>).\<close>

definition escape :: "string \<Rightarrow> string" where
  "escape s = concat (map (\<lambda>c. if c = CHR ''~'' then ''~0''
                               else if c = CHR ''/'' then ''~1'' else [c]) s)"

text \<open>Modelled from the spec: the operations of the Diff wire format (section 6),
  objects with the members \<^verbatim>\<open>op\<close>, \<^verbatim>\<open>path\<close> and, unless the operation is a remove,
  \<^verbatim>\<open>value\<close>.\<close>

definition op_replace :: "string \<Rightarrow> json \<Rightarrow> json" where
  "op_replace path v =
     JObject [(''op'', JString ''replace''), (''path'', JString path), (''value'', v)]"

definition op_add :: "string \<Rightarrow> json \<Rightarrow> json" where
  "op_add path v =
     JObject [(''op'', JString ''add''), (''path'', JString path), (''value'', v)]"

definition op_remove :: "string \<Rightarrow> json" where
  "op_remove path = JObject [(''op'', JString ''remove''), (''path'', JString path)]"

text \<open>
  Modelled from the spec: \<^verbatim>\<open>json::diff(source, target, path)\<close>. Equal documents give no
  operation; documents of different types, and two different primitive values, give one
  replace; two arrays are compared element by element, then the elements only the
  source has are removed (last index first) and the ones only the target has are added;
  two objects are compared member by member in key order (a key only the source has is
  removed), then the members only the target has are added.
\<close>

fun diff_ops :: "json \<Rightarrow> json \<Rightarrow> string \<Rightarrow> json list"
  and diff_elems :: "json list \<Rightarrow> json list \<Rightarrow> nat \<Rightarrow> string \<Rightarrow> json list"
  and diff_members :: "(string \<times> json) list \<Rightarrow> (string \<times> json) list \<Rightarrow> string \<Rightarrow> json list"
  where
  "diff_ops source target path =
     (if source = target then []
      else (case source of
          JArray xs \<Rightarrow>
            (case target of
               JArray ys \<Rightarrow>
                 diff_elems xs ys 0 path
                 @ rev (map (\<lambda>i. op_remove (path @ ''/'' @ to_string i))
                          [min (length xs) (length ys) ..< length xs])
                 @ map (\<lambda>i. op_add (path @ ''/'' @ to_string i) (ys ! i))
                     [min (length xs) (length ys) ..< length ys]
             | _ \<Rightarrow> [op_replace path target])
        | JObject xs \<Rightarrow>
            (case target of
               JObject ys \<Rightarrow>
                 diff_members xs ys path
                 @ map (\<lambda>(k, v). op_add (path @ ''/'' @ escape k) v)
                     (filter (\<lambda>(k, v). map_of xs k = None) ys)
             | _ \<Rightarrow> [op_replace path target])
        | _ \<Rightarrow> [op_replace path target]))"
| "diff_elems [] ys i path = []"
| "diff_elems (x # xs) [] i path = []"
| "diff_elems (x # xs) (y # ys) i path =
     diff_ops x y (path @ ''/'' @ to_string i) @ diff_elems xs ys (Suc i) path"
| "diff_members [] ys path = []"
| "diff_members (kv # xs) ys path =
     (case map_of ys (fst kv) of
        Some v' \<Rightarrow> diff_ops (snd kv) v' (path @ ''/'' @ escape (fst kv))
      | None \<Rightarrow> [op_remove (path @ ''/'' @ escape (fst kv))])
     @ diff_members xs ys path"

declare diff_ops.simps [simp del]

definition json_diff :: "json \<Rightarrow> json \<Rightarrow> json" where
  "json_diff source target = JArray (diff_ops source target '''')"

subsection \<open>Applying a patch\<close>

text \<open>Modelled from the spec: a pointer path is empty or a sequence of tokens, each
  after a \<^verbatim>\<open>/\<close>; in a token \<^verbatim>\<open>~0\<close> stands for \<^verbatim>\<open>~\<close> and \<^verbatim>\<open>~1\<close> for \<^verbatim>\<open>/\<close>, and
  any other use of \<^verbatim>\<open>~\<close> is an error.\<close>

fun unescape :: "string \<Rightarrow> string option" where
  "unescape [] = Some []"
| "unescape (c # s) =
     (if c = CHR ''~''
      then (case s of
              [] \<Rightarrow> None
            | d # s' \<Rightarrow>
                if d = CHR ''0'' then map_option ((#) CHR ''~'') (unescape s')
                else if d = CHR ''1'' then map_option ((#) CHR ''/'') (unescape s')
                else None)
      else map_option ((#) c) (unescape s))"

fun split_slash :: "string \<Rightarrow> string list" where
  "split_slash [] = [[]]"
| "split_slash (c # s) =
     (if c = CHR ''/'' then [] # split_slash s
      else (case split_slash s of t # ts \<Rightarrow> (c # t) # ts | [] \<Rightarrow> [[c]]))"

definition parse_pointer :: "string \<Rightarrow> string list option" where
  "parse_pointer s =
     (case s of
        [] \<Rightarrow> Some []
      | c # s' \<Rightarrow> if c = CHR ''/'' then those (map unescape (split_slash s')) else None)"

text \<open>Modelled from the spec: a token that addresses an array element is its index
  in decimal digits.\<close>

definition is_digit :: "char \<Rightarrow> bool" where
  "is_digit c \<longleftrightarrow> 48 \<le> (of_char c :: nat) \<and> (of_char c :: nat) \<le> 57"

definition parse_index :: "string \<Rightarrow> nat option" where
  "parse_index s =
     (if s \<noteq> [] \<and> list_all is_digit s
      then Some (foldl (\<lambda>n c. 10 * n + (of_char c - 48)) 0 s) else None)"

text \<open>Modelled from the spec: the sub-document a token list leads to, and the
  replacement of that sub-document by what \<open>f\<close> makes of it. An object member is
  assigned in place, through the reference to the member found.\<close>

fun json_at :: "string list \<Rightarrow> json \<Rightarrow> json option" where
  "json_at [] doc = Some doc"
| "json_at (t # ts) doc =
     (case doc of
        JObject kvs \<Rightarrow> (case map_of kvs t of Some c \<Rightarrow> json_at ts c | None \<Rightarrow> None)
      | JArray xs \<Rightarrow>
          (case parse_index t of
             Some i \<Rightarrow> if i < length xs then json_at ts (xs ! i) else None
           | None \<Rightarrow> None)
      | _ \<Rightarrow> None)"

fun member_update :: "string \<Rightarrow> json \<Rightarrow> (string \<times> json) list \<Rightarrow> (string \<times> json) list" where
  "member_update k v [] = []"
| "member_update k v (kv # kvs) =
     (if fst kv = k then (k, v) # kvs else kv # member_update k v kvs)"

fun at_path :: "string list \<Rightarrow> (json \<Rightarrow> error + json) \<Rightarrow> json \<Rightarrow> error + json" where
  "at_path [] f doc = f doc"
| "at_path (t # ts) f doc =
     (case doc of
        JObject kvs \<Rightarrow>
          (case map_of kvs t of
             Some c \<Rightarrow>
               (case at_path ts f c of
                  Inl e \<Rightarrow> Inl e
                | Inr c' \<Rightarrow> Inr (JObject (member_update t c' kvs)))
           | None \<Rightarrow> Inl OutOfRange)
      | JArray xs \<Rightarrow>
          (case parse_index t of
             Some i \<Rightarrow>
               if i < length xs
               then (case at_path ts f (xs ! i) of
                       Inl e \<Rightarrow> Inl e
                     | Inr c' \<Rightarrow> Inr (JArray (xs[i := c'])))
               else Inl OutOfRange
           | None \<Rightarrow> Inl ParseError)
      | _ \<Rightarrow> Inl OutOfRange)"

text \<open>
  Modelled from the spec: the three operations of a Diff (section 6) applied to a
  document, as RFC 6902 defines them. \<^verbatim>\<open>add\<close> sets a member of the parent object, or
  inserts before the given index of the parent array (\<^verbatim>\<open>-\<close> or the length appends);
  \<^verbatim>\<open>remove\<close> deletes the member or the element, which must exist; \<^verbatim>\<open>replace\<close> puts
  the value in the place of an existing one; \<^verbatim>\<open>add\<close> with the empty path replaces the
  whole document. The operations \<^verbatim>\<open>move\<close>, \<^verbatim>\<open>copy\<close> and \<^verbatim>\<open>test\<close>, which no Diff
  holds, are refused.
\<close>

definition add_child :: "string \<Rightarrow> json \<Rightarrow> json \<Rightarrow> error + json" where
  "add_child t v parent =
     (case parent of
        JObject kvs \<Rightarrow> Inr (JObject (map_assign t v kvs))
      | JNull \<Rightarrow> Inr (JObject [(t, v)])
      | JArray xs \<Rightarrow>
          if t = ''-'' then Inr (JArray (xs @ [v]))
          else (case parse_index t of
                  Some i \<Rightarrow>
                    if i \<le> length xs then Inr (JArray (take i xs @ v # drop i xs))
                    else Inl OutOfRange
                | None \<Rightarrow> Inl ParseError)
      | _ \<Rightarrow> Inl TypeError)"

definition remove_child :: "string \<Rightarrow> json \<Rightarrow> error + json" where
  "remove_child t parent =
     (case parent of
        JObject kvs \<Rightarrow>
          if map_of kvs t \<noteq> None then Inr (JObject (filter (\<lambda>kv. fst kv \<noteq> t) kvs))
          else Inl OutOfRange
      | JArray xs \<Rightarrow>
          (case parse_index t of
             Some i \<Rightarrow>
               if i < length xs then Inr (JArray (take i xs @ drop (Suc i) xs))
               else Inl OutOfRange
           | None \<Rightarrow> Inl ParseError)
      | _ \<Rightarrow> Inl TypeError)"

definition patch_add :: "string list \<Rightarrow> json \<Rightarrow> json \<Rightarrow> error + json" where
  "patch_add ts v doc =
     (if ts = [] then Inr v else at_path (butlast ts) (add_child (last ts) v) doc)"

definition patch_remove :: "string list \<Rightarrow> json \<Rightarrow> error + json" where
  "patch_remove ts doc =
     (if ts = [] then Inl OutOfRange else at_path (butlast ts) (remove_child (last ts)) doc)"

definition patch_replace :: "string list \<Rightarrow> json \<Rightarrow> json \<Rightarrow> error + json" where
  "patch_replace ts v doc = at_path ts (\<lambda>old. Inr v) doc"

definition apply_op :: "json \<Rightarrow> json \<Rightarrow> error + json" where
  "apply_op op doc =
     (case (map_of (json_members op) ''op'', map_of (json_members op) ''path'') of
        (Some (JString name), Some (JString path)) \<Rightarrow>
          (case parse_pointer path of
             None \<Rightarrow> Inl ParseError
           | Some ts \<Rightarrow>
               if name = ''add''
               then (case map_of (json_members op) ''value'' of
                       Some v \<Rightarrow> patch_add ts v doc
                     | None \<Rightarrow> Inl ParseError)
               else if name = ''remove'' then patch_remove ts doc
               else if name = ''replace''
               then (case map_of (json_members op) ''value'' of
                       Some v \<Rightarrow> patch_replace ts v doc
                     | None \<Rightarrow> Inl ParseError)
               else Inl ParseError)
      | _ \<Rightarrow> Inl ParseError)"

fun apply_ops :: "json list \<Rightarrow> json \<Rightarrow> error + json" where
  "apply_ops [] doc = Inr doc"
| "apply_ops (op # ops) doc =
     (case apply_op op doc of Inl e \<Rightarrow> Inl e | Inr doc' \<Rightarrow> apply_ops ops doc')"

text \<open>Modelled from the spec: \<^verbatim>\<open>json::patch\<close>, the operations of a patch applied in
  order; the first one that fails fails the patch.\<close>

definition json_patch :: "json \<Rightarrow> json \<Rightarrow> error + json" where
  "json_patch doc patch = (case patch of JArray ops \<Rightarrow> apply_ops ops doc | _ \<Rightarrow> Inl ParseError)"

text \<open>The members of an object after the operations \<open>diff_members\<close> yields for the
  source members \<open>rest\<close>: a member the target has takes the target's value, a member
  it has not is deleted.\<close>

fun patched ::
  "(string \<times> json) list \<Rightarrow> (string \<times> json) list \<Rightarrow> (string \<times> json) list
     \<Rightarrow> (string \<times> json) list" where
  "patched [] ys cur = cur"
| "patched (kv # rest) ys cur =
     patched rest ys
       (case map_of ys (fst kv) of
          Some v' \<Rightarrow> member_update (fst kv) v' cur
        | None \<Rightarrow> filter (\<lambda>e. fst e \<noteq> fst kv) cur)"

section \<open>The synchronizing server (\<^verbatim>\<open>server.h\<close>)\<close>

text \<open>
  A \<^verbatim>\<open>Message\<close> is the payload the backend carries, a byte string;
  \<^verbatim>\<open>Message()\<close> is the empty one. The publisher \<^verbatim>\<open>pub_\<close> is modelled by the
  messages handed to \<^verbatim>\<open>Publish\<close>, oldest first, whether the call returned or threw;
  the backend is a template parameter, and its \<^verbatim>\<open>Publish\<close> enters as \<open>publish\<close>, which
  tells from the messages handed so far and the new one whether the call throws.
  \<^verbatim>\<open>ver_\<close> is a C++ \<^verbatim>\<open>int\<close>: a 32-bit word read as two's complement, whose \<^verbatim>\<open>+ 1\<close>
  wraps (in C++ the overflow at \<open>2147483647\<close> is undefined). The data type \<^verbatim>\<open>T\<close>
  enters through its \<^verbatim>\<open>to_json\<close>, which may throw, and the library's \<^verbatim>\<open>dump\<close> is a
  parameter, a total function (json.hpp is not among the sources; a \<^verbatim>\<open>dump\<close> that
  throws is outside the model). The members \<^verbatim>\<open>state_\<close>, \<^verbatim>\<open>ver_\<close>, \<^verbatim>\<open>reply_\<close>,
  \<^verbatim>\<open>pub_\<close> and \<^verbatim>\<open>conds_\<close> lose their last underscore, which a name cannot end with
  here.
\<close>

type_synonym Message = string

record Server_state =
  state :: json
  ver :: "32 word"
  reply :: Message
  pub :: "Message list"

definition VERSION_KEY :: string where
  "VERSION_KEY = ''__syncer_data_version''"

type_synonym Publish = "Message list \<Rightarrow> Message \<Rightarrow> error option"

text \<open>The constructor: an exception of \<^verbatim>\<open>to_json\<close>, of \<^verbatim>\<open>operator[]\<close> or of
  \<^verbatim>\<open>Publish\<close> leaves it, and no server exists.\<close>

definition Server ::
  "('d \<Rightarrow> error + json) \<Rightarrow> (json \<Rightarrow> string) \<Rightarrow> Publish \<Rightarrow> 'd \<Rightarrow> error + Server_state" where
  "Server to_json dump publish data =
     (case to_json data of
        Inl e \<Rightarrow> Inl e
      | Inr j \<Rightarrow>
          (case json_assign j VERSION_KEY (JInt (sint (0 :: 32 word))) of
             Inl e \<Rightarrow> Inl e
           | Inr st \<Rightarrow>
               (case publish [] [] of
                  Some e \<Rightarrow> Inl e
                | None \<Rightarrow> Inr \<lparr>state = st, ver = 0, reply = dump st, pub = [[]]\<rparr>)))"

text \<open>\<^verbatim>\<open>Update\<close> returns the exception that left it, if any, and the server as the
  call leaves it. After the size test the members are assigned one after the other, as
  in the source, and \<^verbatim>\<open>Publish\<close> comes last: when it throws, the three assignments
  before it stay.\<close>

definition Update ::
  "('d \<Rightarrow> error + json) \<Rightarrow> (json \<Rightarrow> string) \<Rightarrow> Publish \<Rightarrow> Server_state \<Rightarrow> 'd
     \<Rightarrow> error option \<times> Server_state" where
  "Update to_json dump publish s data =
     (case to_json data of
        Inl e \<Rightarrow> (Some e, s)
      | Inr j \<Rightarrow>
          (case json_assign j VERSION_KEY (JInt (sint (ver s + 1))) of
             Inl e \<Rightarrow> (Some e, s)
           | Inr next \<Rightarrow>
               (let diff = json_diff (state s) next in
                if json_size diff > 1
                then (let s1 = s\<lparr>state := next\<rparr>;
                          s2 = s1\<lparr>ver := ver s1 + 1\<rparr>;
                          s3 = s2\<lparr>reply := dump (state s2)\<rparr>
                      in (publish (pub s3) (dump diff), s3\<lparr>pub := pub s3 @ [dump diff]\<rparr>))
                else (None, s))))"

definition HandleRequest :: "Server_state \<Rightarrow> Message \<Rightarrow> Message" where
  "HandleRequest s request = reply s"

text \<open>The server after the \<^verbatim>\<open>Update\<close> calls of a list of data, in order (after a
  call that throws the caller goes on with the server as that call left it).\<close>

definition updates ::
  "('d \<Rightarrow> error + json) \<Rightarrow> (json \<Rightarrow> string) \<Rightarrow> Publish \<Rightarrow> Server_state \<Rightarrow> 'd list
     \<Rightarrow> Server_state" where
  "updates to_json dump publish s ds =
     fold (\<lambda>d s. snd (Update to_json dump publish s d)) ds s"

text \<open>The invariant of the data model: the cached reply is the text of the stored
  state, and the version member of the stored state is the counter.\<close>

definition snapshot_inv :: "(json \<Rightarrow> string) \<Rightarrow> Server_state \<Rightarrow> bool" where
  "snapshot_inv dump s \<longleftrightarrow>
     reply s = dump (state s) \<and>
     map_of (json_members (state s)) VERSION_KEY = Some (JInt (sint (ver s)))"

text \<open>The members of a document other than the version member: the domain data.\<close>

definition domain_members :: "json \<Rightarrow> (string \<times> json) list" where
  "domain_members j = filter (\<lambda>kv. fst kv \<noteq> VERSION_KEY) (json_members j)"

text \<open>The stored state is a well-formed object whose version member is the counter.\<close>

definition stored_inv :: "Server_state \<Rightarrow> bool" where
  "stored_inv s \<longleftrightarrow>
     wf_json (state s) \<and> state s = JObject (json_members (state s)) \<and>
     map_of (json_members (state s)) VERSION_KEY = Some (JInt (sint (ver s)))"

section \<open>The patch operation router (\<^verbatim>\<open>patch_op_router.h\<close>)\<close>

datatype PatchOp = PATCH_OP_ADD | PATCH_OP_REMOVE | PATCH_OP_REPLACE

type_synonym PatchOpSet = "32 word"

fun op_bit :: "PatchOp \<Rightarrow> PatchOpSet" where
  "op_bit PATCH_OP_ADD = 1"
| "op_bit PATCH_OP_REMOVE = 2"
| "op_bit PATCH_OP_REPLACE = 4"

definition PATCH_OP_ANY :: PatchOpSet where
  "PATCH_OP_ANY = op_bit PATCH_OP_ADD OR op_bit PATCH_OP_REMOVE OR op_bit PATCH_OP_REPLACE"

text \<open>
  \<^verbatim>\<open>PatchOpSet\<close> is an \<^verbatim>\<open>int\<close>, a 32-bit word. The standard library's regular
  expressions are parameters: \<open>regex\<close> is the constructor of \<^verbatim>\<open>std::regex\<close>, which
  may reject a pattern, \<open>regex_match\<close> is \<^verbatim>\<open>std::regex_match\<close>, and \<^verbatim>\<open>std::smatch\<close> is
  the list of matched groups, the whole match first. A callback is modelled by what it
  does to the world \<open>'w\<close> outside the router; a callback that throws is outside the
  model. The declaration \<^verbatim>\<open>T2 typed;\<close> initialises nothing for a scalar \<^verbatim>\<open>T2\<close> such as
  \<^verbatim>\<open>int\<close>: \<open>declared\<close> gives the value \<^verbatim>\<open>typed\<close> holds after it, the default-constructed
  value for a class type and, for a scalar one, whatever the world has left in its
  storage. \<^verbatim>\<open>from_json(value, typed)\<close> writes into the \<^verbatim>\<open>typed\<close> it is handed and may
  throw on the way: it returns the value it leaves there and whether it threw.
\<close>

type_synonym smatch = "string list"

type_synonym ('t, 'v, 'w) PatchOpCallback = "'t \<Rightarrow> smatch \<Rightarrow> PatchOp \<Rightarrow> 'v \<Rightarrow> 'w \<Rightarrow> 'w"

type_synonym ('t, 'w) Callback = "'t \<Rightarrow> smatch \<Rightarrow> PatchOp \<Rightarrow> json \<Rightarrow> 'w \<Rightarrow> 'w"

type_synonym ('re, 't, 'w) Condition = "'re \<times> PatchOpSet \<times> ('t, 'w) Callback"

text \<open>
  Modelled from the spec: the macros \<^verbatim>\<open>SYNCER_TRY\<close> and \<^verbatim>\<open>SYNCER_CATCH_LOG\<close> are not
  in the sources. After section 4.2 (decode failures are caught internally and logged)
  they are a try block and a handler that logs its message through \<open>log\<close> and
  goes on.
\<close>

definition wrapped ::
  "(json \<Rightarrow> 'v \<Rightarrow> 'v \<times> bool) \<Rightarrow> ('w \<Rightarrow> 'v) \<Rightarrow> (string \<Rightarrow> 'w \<Rightarrow> 'w)
     \<Rightarrow> ('t, 'v, 'w) PatchOpCallback \<Rightarrow> ('t, 'w) Callback" where
  "wrapped from_json declared log cb data match op val w =
     (let typed = declared w in
      if op \<noteq> PATCH_OP_REMOVE
      then (case from_json val typed of
              (typed', threw) \<Rightarrow>
                cb data match op typed'
                  (if threw then log ''failed to construct JSON patch operation value'' w
                   else w))
      else cb data match op typed w)"

definition AddCallback ::
  "(string \<Rightarrow> 're option) \<Rightarrow> (json \<Rightarrow> 'v \<Rightarrow> 'v \<times> bool) \<Rightarrow> ('w \<Rightarrow> 'v)
     \<Rightarrow> (string \<Rightarrow> 'w \<Rightarrow> 'w) \<Rightarrow> string \<Rightarrow> PatchOpSet \<Rightarrow> ('t, 'v, 'w) PatchOpCallback
     \<Rightarrow> ('re, 't, 'w) Condition list \<Rightarrow> error + ('re, 't, 'w) Condition list" where
  "AddCallback regex from_json declared log path_re ops cb conds =
     (case regex path_re of
        None \<Rightarrow> Inl RegexError
      | Some re \<Rightarrow> Inr (conds @ [(re, ops, wrapped from_json declared log cb)]))"

fun HandleOp ::
  "(string \<Rightarrow> 're \<Rightarrow> smatch option) \<Rightarrow> ('re, 't, 'w) Condition list
     \<Rightarrow> 't \<Rightarrow> string \<Rightarrow> PatchOp \<Rightarrow> json \<Rightarrow> 'w \<Rightarrow> 'w" where
  "HandleOp regex_match [] data path op val w = w"
| "HandleOp regex_match (c # conds) data path op val w =
     (if fst (snd c) AND op_bit op \<noteq> 0
      then (case regex_match path (fst c) of
              Some match \<Rightarrow>
                HandleOp regex_match conds data path op val
                  (snd (snd c) data match op val w)
            | None \<Rightarrow> HandleOp regex_match conds data path op val w)
      else HandleOp regex_match conds data path op val w)"

text \<open>
  The two \<^verbatim>\<open>from_json\<close> overloads of the header, \<^verbatim>\<open>v = j\<close> for \<^verbatim>\<open>int\<close> and for
  \<^verbatim>\<open>std::string\<close>. Modelled from the spec: the conversion of a document to the
  value type is json.hpp's; it throws, before \<^verbatim>\<open>v\<close> is assigned, unless the document
  is a number (narrowed to the 32 bits of an \<^verbatim>\<open>int\<close>) or a string.
\<close>

definition from_json_int :: "json \<Rightarrow> 32 word \<Rightarrow> 32 word \<times> bool" where
  "from_json_int j v = (case j of JInt n \<Rightarrow> (word_of_int n, False) | _ \<Rightarrow> (v, True))"

definition from_json_string :: "json \<Rightarrow> string \<Rightarrow> string \<times> bool" where
  "from_json_string j v = (case j of JString s \<Rightarrow> (s, False) | _ \<Rightarrow> (v, True))"

text \<open>A rule fires on an operation when the operation is in its mask and
  \<^verbatim>\<open>regex_match\<close> accepts the path; \<open>recorder i\<close> is a callback that only appends the
  call it receives, under the label \<open>i\<close>, to the calls made so far.\<close>

definition fires ::
  "(string \<Rightarrow> 're \<Rightarrow> smatch option) \<Rightarrow> string \<Rightarrow> PatchOp \<Rightarrow> 're \<Rightarrow> PatchOpSet \<Rightarrow> bool" where
  "fires regex_match path op re ops \<longleftrightarrow>
     ops AND op_bit op \<noteq> 0 \<and> regex_match path re \<noteq> None"

definition recorder :: "nat \<Rightarrow> ('t, (nat \<times> 't \<times> smatch \<times> PatchOp \<times> json) list) Callback" where
  "recorder i data match op val calls = calls @ [(i, data, match, op, val)]"

section \<open>Example data\<close>

text \<open>
  The examples run the server on the data of the spec's Scenario A, a value with one
  integer member \<^verbatim>\<open>a\<close> (whose \<^verbatim>\<open>to_json\<close> here refuses a negative one), and on a
  compact serialiser for \<^verbatim>\<open>dump\<close>: no white space, members in key order, control
  characters, the quote and the backslash escaped.
\<close>

definition to_json_a :: "int \<Rightarrow> error + json" where
  "to_json_a n = (if n < 0 then Inl EncodeError else Inr (JObject [(''a'', JInt n)]))"

definition dump_int :: "int \<Rightarrow> string" where
  "dump_int n = (if n < 0 then ''-'' @ to_string (nat (- n)) else to_string (nat n))"

definition hex_digit :: "nat \<Rightarrow> char" where
  "hex_digit n = ''0123456789abcdef'' ! (n mod 16)"

definition dump_char :: "char \<Rightarrow> string" where
  "dump_char c =
     (if c = CHR 0x22 then [CHR 0x5C, CHR 0x22]
      else if c = CHR 0x5C then [CHR 0x5C, CHR 0x5C]
      else if c = CHR 0x08 then [CHR 0x5C, CHR ''b'']
      else if c = CHR 0x0C then [CHR 0x5C, CHR ''f'']
      else if c = CHR 0x0A then [CHR 0x5C, CHR ''n'']
      else if c = CHR 0x0D then [CHR 0x5C, CHR ''r'']
      else if c = CHR 0x09 then [CHR 0x5C, CHR ''t'']
      else if (of_char c :: nat) < 32
        then [CHR 0x5C, CHR ''u'', CHR ''0'', CHR ''0'',
              hex_digit (of_char c div 16), hex_digit (of_char c)]
      else [c])"

definition dump_string :: "string \<Rightarrow> string" where
  "dump_string s = [CHR 0x22] @ concat (map dump_char s) @ [CHR 0x22]"

fun json_dump :: "json \<Rightarrow> string"
  and dump_elems :: "json list \<Rightarrow> string"
  and dump_members :: "(string \<times> json) list \<Rightarrow> string" where
  "json_dump JNull = ''null''"
| "json_dump (JBool b) = (if b then ''true'' else ''false'')"
| "json_dump (JInt n) = dump_int n"
| "json_dump (JString s) = dump_string s"
| "json_dump (JArray xs) = ''['' @ dump_elems xs @ '']''"
| "json_dump (JObject kvs) = ''{'' @ dump_members kvs @ ''}''"
| "dump_elems [] = []"
| "dump_elems (x # xs) = json_dump x @ (if xs = [] then [] else '','' @ dump_elems xs)"
| "dump_members [] = []"
| "dump_members (kv # kvs) =
     dump_string (fst kv) @ '':'' @ json_dump (snd kv)
     @ (if kvs = [] then [] else '','' @ dump_members kvs)"

text \<open>Two backends: one whose \<^verbatim>\<open>Publish\<close> never throws, and one that accepts the
  first message it is handed and throws on every later one.\<close>

definition publish_ok :: Publish where
  "publish_ok handed msg = None"


text \<open>A run of \<open>n\<close> data values for the Scenario A server, each different from the
  one before it and the first different from the initial \<^verbatim>\<open>a = 1\<close>: 0, 1, 0, 1, ...\<close>

definition flips :: "nat \<Rightarrow> int list" where
  "flips n = map (\<lambda>i. int (i mod 2)) [0..<n]"

text \<open>The three servers of Scenario A: constructed with \<^verbatim>\<open>a = 1\<close>, then after
  \<^verbatim>\<open>Update\<close> with \<^verbatim>\<open>a = 2\<close>.\<close>

definition scenario_state0 :: json where
  "scenario_state0 = JObject [(''__syncer_data_version'', JInt 0), (''a'', JInt 1)]"

definition scenario_state1 :: json where
  "scenario_state1 = JObject [(''__syncer_data_version'', JInt 1), (''a'', JInt 2)]"

definition scenario_server0 :: Server_state where
  "scenario_server0 =
     \<lparr>state = scenario_state0, ver = 0, reply = json_dump scenario_state0, pub = [[]]\<rparr>"

definition scenario_server1 :: Server_state where
  "scenario_server1 =
     \<lparr>state = scenario_state1, ver = 1, reply = json_dump scenario_state1,
      pub = [[], json_dump (json_diff scenario_state0 scenario_state1)]\<rparr>"

text \<open>Data that is itself a document, encoded as it is: its encoding can hold a member
  under the reserved key.\<close>

definition to_json_doc :: "json \<Rightarrow> error + json" where
  "to_json_doc d = (if wf_json d then Inr d else Inl EncodeError)"

definition doc_mine :: json where
  "doc_mine = JObject [(''__syncer_data_version'', JString ''mine''), (''a'', JInt 1)]"

definition doc_seven :: json where
  "doc_seven = JObject [(''__syncer_data_version'', JInt 7), (''a'', JInt 1)]"

text \<open>
  Example rules. For a pattern without special characters \<^verbatim>\<open>std::regex_match\<close>
  accepts exactly the pattern itself, and the match holds the whole path:
  \<open>literal_match\<close>. The value types are \<^verbatim>\<open>int\<close> and \<^verbatim>\<open>std::string\<close>, with the
  \<^verbatim>\<open>from_json\<close> of the header, and a point with two integer members, whose default
  constructor sets both to 0 and whose \<^verbatim>\<open>from_json\<close> reads one member after the other
  (\<^verbatim>\<open>p.x = j.at("x"); p.y = j.at("y");\<close>, where \<^verbatim>\<open>at\<close> throws on a missing member).
  The world of the examples holds what the storage of an uninitialised \<^verbatim>\<open>int typed;\<close>
  contains and the list of what the log and the callbacks received. \<^verbatim>\<open>std::string
  typed;\<close> is the empty string, \<^verbatim>\<open>int typed;\<close> is what the storage holds.
\<close>

definition literal_regex :: "string \<Rightarrow> string option" where
  "literal_regex path_re = Some path_re"

definition literal_match :: "string \<Rightarrow> string \<Rightarrow> smatch option" where
  "literal_match path re = (if path = re then Some [path] else None)"

definition from_json_point :: "json \<Rightarrow> int \<times> int \<Rightarrow> (int \<times> int) \<times> bool" where
  "from_json_point j p =
     (case map_of (json_members j) ''x'' of
        Some (JInt x) \<Rightarrow>
          (case map_of (json_members j) ''y'' of
             Some (JInt y) \<Rightarrow> ((x, y), False)
           | _ \<Rightarrow> ((x, snd p), True))
      | _ \<Rightarrow> (p, True))"

datatype event = Logged string | IntValue "32 word" | StringValue string | PointValue "int \<times> int"

record world =
  storage :: "32 word"
  events :: "event list"

definition declared_int :: "world \<Rightarrow> 32 word" where
  "declared_int w = storage w"

definition declared_string :: "world \<Rightarrow> string" where
  "declared_string w = []"

definition declared_point :: "world \<Rightarrow> int \<times> int" where
  "declared_point w = (0, 0)"

definition log_event :: "string \<Rightarrow> world \<Rightarrow> world" where
  "log_event msg w = w\<lparr>events := events w @ [Logged msg]\<rparr>"

definition int_cb :: "(unit, 32 word, world) PatchOpCallback" where
  "int_cb data match op n w = w\<lparr>events := events w @ [IntValue n]\<rparr>"

definition string_cb :: "(unit, string, world) PatchOpCallback" where
  "string_cb data match op v w = w\<lparr>events := events w @ [StringValue v]\<rparr>"

definition point_cb :: "(unit, int \<times> int, world) PatchOpCallback" where
  "point_cb data match op p w = w\<lparr>events := events w @ [PointValue p]\<rparr>"

text \<open>Three rules on the path \<^verbatim>\<open>/v\<close>, for a point, a string and an \<^verbatim>\<open>int\<close>.\<close>

definition example_conds :: "(string, unit, world) Condition list" where
  "example_conds =
     [(''/v'', PATCH_OP_ANY, wrapped from_json_point declared_point log_event point_cb),
      (''/v'', PATCH_OP_ANY, wrapped from_json_string declared_string log_event string_cb),
      (''/v'', PATCH_OP_ANY, wrapped from_json_int declared_int log_event int_cb)]"

section \<open>Construction and full-state requests\<close>

lemma json_assign_members:
  "json_assign j k v = Inr st \<Longrightarrow> map_of (json_members st) k = Some v"
proof (cases j)
  case (JObject kvs)
  have "map_of (map_assign k v kvs) k = Some v"
    by (induction kvs) auto
  moreover assume "json_assign j k v = Inr st"
  ultimately show ?thesis using JObject by auto
qed auto

lemma Server_Inr:
  "Server to_json dump publish data = Inr s \<longleftrightarrow>
     (\<exists>j st. to_json data = Inr j \<and> json_assign j VERSION_KEY (JInt 0) = Inr st \<and>
        publish [] [] = None \<and>
        s = \<lparr>state = st, ver = 0, reply = dump st, pub = [[]]\<rparr>)"
  by (auto simp: Server_def split: sum.splits option.splits)

lemma Server_inv:
  assumes "Server to_json dump publish data = Inr s"
  shows "snapshot_inv dump s"
  using assms by (auto simp: Server_Inr snapshot_inv_def dest: json_assign_members)

lemma Update_cases:
  assumes "Update to_json dump publish s data = (r, s')"
  obtains
    (encode) e where "to_json data = Inl e" "r = Some e" "s' = s"
  | (type) j e where "to_json data = Inr j"
      "json_assign j VERSION_KEY (JInt (sint (ver s + 1))) = Inl e" "r = Some e" "s' = s"
  | (noop) j "next" where "to_json data = Inr j"
      "json_assign j VERSION_KEY (JInt (sint (ver s + 1))) = Inr next"
      "\<not> json_size (json_diff (state s) next) > 1" "r = None" "s' = s"
  | (commit) j "next" where "to_json data = Inr j"
      "json_assign j VERSION_KEY (JInt (sint (ver s + 1))) = Inr next"
      "json_size (json_diff (state s) next) > 1"
      "r = publish (pub s) (dump (json_diff (state s) next))"
      "s' = s\<lparr>state := next, ver := ver s + 1, reply := dump next,
               pub := pub s @ [dump (json_diff (state s) next)]\<rparr>"
proof (cases "to_json data")
  case (Inl e)
  with assms have "r = Some e" "s' = s"
    by (simp_all add: Update_def)
  with Inl show thesis by (rule encode)
next
  case (Inr j)
  show thesis
  proof (cases "json_assign j VERSION_KEY (JInt (sint (ver s + 1)))")
    case (Inl e)
    with \<open>to_json data = Inr j\<close> assms have "r = Some e" "s' = s"
      by (simp_all add: Update_def)
    with \<open>to_json data = Inr j\<close> Inl show thesis by (rule type)
  next
    case assigned: (Inr "next")
    show thesis
    proof (cases "json_size (json_diff (state s) next) > 1")
      case True
      with Inr assigned assms have "r = publish (pub s) (dump (json_diff (state s) next))"
        "s' = s\<lparr>state := next, ver := ver s + 1, reply := dump next,
                 pub := pub s @ [dump (json_diff (state s) next)]\<rparr>"
        by (auto simp: Update_def Let_def)
      with Inr assigned True show thesis by (rule commit)
    next
      case False
      with Inr assigned assms have "r = None" "s' = s"
        by (simp_all add: Update_def Let_def)
      with Inr assigned False show thesis by (rule noop)
    qed
  qed
qed

lemma Update_inv:
  assumes "snapshot_inv dump s"
  shows "snapshot_inv dump (snd (Update to_json dump publish s data))"
proof -
  obtain r s' where u: "Update to_json dump publish s data = (r, s')"
    by (cases "Update to_json dump publish s data")
  then have "snapshot_inv dump s'"
  proof (cases rule: Update_cases)
    case (commit j "next")
    then show ?thesis
      by (simp add: snapshot_inv_def json_assign_members)
  qed (use assms in simp_all)
  with u show ?thesis by simp
qed

lemma updates_inv:
  "snapshot_inv dump s \<Longrightarrow> snapshot_inv dump (updates to_json dump publish s ds)"
  unfolding updates_def
  by (induction ds arbitrary: s) (simp_all add: Update_inv)

lemma scenario_construct: "Server to_json_a json_dump publish_ok 1 = Inr scenario_server0"
  by (simp add: Server_def to_json_a_def VERSION_KEY_def scenario_server0_def
      scenario_state0_def publish_ok_def)

text \<open>
  C8. Construction succeeds exactly when the initial data encodes to a document that
  takes the version member and the publisher accepts the empty message; the new server
  then stores that encoding with the version member set to 0, its counter is 0, its
  cached reply is the text of the stored state, and the publisher has been handed one
  message, the empty one.
\<close>

theorem Server_construction:
  "Server to_json dump publish data = Inr s \<longleftrightarrow>
     (\<exists>j. to_json data = Inr j \<and>
        json_assign j VERSION_KEY (JInt 0) = Inr (state s) \<and>
        map_of (json_members (state s)) VERSION_KEY = Some (JInt 0) \<and>
        publish [] [] = None \<and>
        ver s = 0 \<and> reply s = dump (state s) \<and> pub s = [[]] \<and> length (pub s) = 1)"
  by (auto simp: Server_Inr dest: json_assign_members)

theorem Server_construction_witness:
  "Server to_json_a json_dump publish_ok 1 = Inr scenario_server0 \<and>
   state scenario_server0 = JObject [(''__syncer_data_version'', JInt 0), (''a'', JInt 1)] \<and>
   ver scenario_server0 = 0 \<and>
   reply scenario_server0 = json_dump (state scenario_server0) \<and>
   pub scenario_server0 = [[]]"
  using Server_construction [of to_json_a json_dump publish_ok 1 scenario_server0]
    scenario_construct
  by (simp add: scenario_server0_def scenario_state0_def)

text \<open>
  C9. A full-state request is answered with the cached reply whatever the request
  holds, and on a constructed server, after any \<^verbatim>\<open>Update\<close> calls, that reply is the
  text of the stored state, whose version member is the counter.
\<close>

theorem HandleRequest_snapshot:
  assumes "Server to_json dump publish data = Inr s0"
  shows "HandleRequest (updates to_json dump publish s0 ds) request1 =
           HandleRequest (updates to_json dump publish s0 ds) request2 \<and>
         HandleRequest (updates to_json dump publish s0 ds) request1 =
           dump (state (updates to_json dump publish s0 ds)) \<and>
         map_of (json_members (state (updates to_json dump publish s0 ds))) VERSION_KEY =
           Some (JInt (sint (ver (updates to_json dump publish s0 ds))))"
  using updates_inv [OF Server_inv [OF assms], of to_json publish ds]
  by (simp add: HandleRequest_def snapshot_inv_def)

lemma scenario_diff:
  "json_diff scenario_state0 scenario_state1 =
     JArray [op_replace ''/__syncer_data_version'' (JInt 1), op_replace ''/a'' (JInt 2)]"
  by (simp add: json_diff_def diff_ops.simps scenario_state0_def scenario_state1_def
      escape_def)

lemma scenario_update1:
  "Update to_json_a json_dump publish_ok scenario_server0 2 = (None, scenario_server1)"
  using scenario_diff
  by (simp add: Update_def to_json_a_def VERSION_KEY_def scenario_server0_def
      scenario_server1_def scenario_state0_def scenario_state1_def publish_ok_def)


lemma scenario_update2:
  "Update to_json_a json_dump publish_ok scenario_server1 2 = (None, scenario_server1)"
  by (simp add: Update_def to_json_a_def VERSION_KEY_def scenario_server1_def
      scenario_state1_def json_diff_def diff_ops.simps escape_def op_replace_def)

lemma scenario_updates:
  "updates to_json_a json_dump publish_ok scenario_server0 [2, 2] = scenario_server1"
  by (simp add: updates_def scenario_update1 scenario_update2)

theorem HandleRequest_snapshot_witness:
  "Server to_json_a json_dump publish_ok 1 = Inr scenario_server0 \<and>
   HandleRequest (updates to_json_a json_dump publish_ok scenario_server0 [2, 2]) ''full state'' =
     HandleRequest (updates to_json_a json_dump publish_ok scenario_server0 [2, 2]) [] \<and>
   HandleRequest (updates to_json_a json_dump publish_ok scenario_server0 [2, 2]) ''full state'' =
     json_dump (state (updates to_json_a json_dump publish_ok scenario_server0 [2, 2])) \<and>
   state (updates to_json_a json_dump publish_ok scenario_server0 [2, 2]) =
     JObject [(''__syncer_data_version'', JInt 1), (''a'', JInt 2)]"
proof -
  have "state (updates to_json_a json_dump publish_ok scenario_server0 [2, 2]) =
          JObject [(''__syncer_data_version'', JInt 1), (''a'', JInt 2)]"
    by (simp add: scenario_updates scenario_server1_def scenario_state1_def)
  with HandleRequest_snapshot [OF scenario_construct, of "[2, 2]" "''full state''" "[]"]
    scenario_construct
  show ?thesis by blast
qed

section \<open>Snapshot invariant and atomic updates\<close>


text \<open>
  C2. On a constructed server, and after any \<^verbatim>\<open>Update\<close> calls on it, the cached reply
  is the serialized text of the stored state and the version member of the stored state
  is the counter; every \<^verbatim>\<open>Update\<close> call, whatever its outcome, keeps the two true
  (\<^verbatim>\<open>HandleRequest\<close> changes nothing).
\<close>

theorem snapshot_invariant:
  assumes "Server to_json dump publish data = Inr s0"
  shows "reply s0 = dump (state s0) \<and>
         map_of (json_members (state s0)) VERSION_KEY = Some (JInt (sint (ver s0))) \<and>
         reply (updates to_json dump publish s0 ds) =
           dump (state (updates to_json dump publish s0 ds)) \<and>
         map_of (json_members (state (updates to_json dump publish s0 ds))) VERSION_KEY =
           Some (JInt (sint (ver (updates to_json dump publish s0 ds)))) \<and>
         (\<forall>s d. snapshot_inv dump s \<longrightarrow>
            snapshot_inv dump (snd (Update to_json dump publish s d)))"
proof -
  have "snapshot_inv dump s0"
    using assms by (rule Server_inv)
  moreover from this have "snapshot_inv dump (updates to_json dump publish s0 ds)"
    by (rule updates_inv)
  ultimately show ?thesis
    by (simp add: snapshot_inv_def [symmetric] Update_inv)
qed

theorem snapshot_invariant_witness:
  "Server to_json_a json_dump publish_ok 1 = Inr scenario_server0 \<and>
   reply (updates to_json_a json_dump publish_ok scenario_server0 [2, 2]) =
     json_dump (state (updates to_json_a json_dump publish_ok scenario_server0 [2, 2])) \<and>
   map_of (json_members (state (updates to_json_a json_dump publish_ok scenario_server0 [2, 2])))
       VERSION_KEY =
     Some (JInt (sint (ver (updates to_json_a json_dump publish_ok scenario_server0 [2, 2])))) \<and>
   snapshot_inv json_dump scenario_server0 \<and>
   snapshot_inv json_dump (snd (Update to_json_a json_dump publish_ok scenario_server0 2)) \<and>
   snd (Update to_json_a json_dump publish_ok scenario_server0 2) = scenario_server1"
proof -
  note inst = snapshot_invariant [OF scenario_construct, of "[2, 2]"]
  have start: "snapshot_inv json_dump scenario_server0"
    using inst by (simp add: snapshot_inv_def)
  with inst
  have "snapshot_inv json_dump (snd (Update to_json_a json_dump publish_ok scenario_server0 2))"
    by blast
  with start inst scenario_construct scenario_update1 show ?thesis
    by simp
qed



section \<open>Dispatch of patch operations\<close>

lemma HandleOp_append:
  "HandleOp regex_match (pre @ post) data path op val w =
     HandleOp regex_match post data path op val (HandleOp regex_match pre data path op val w)"
  by (induction pre arbitrary: w) (simp_all split: option.splits)

text \<open>
  C4. \<^verbatim>\<open>HandleOp\<close> runs, in registration order and each once, the handlers of the
  rules that have the operation in their mask and whose pattern \<^verbatim>\<open>regex_match\<close>
  accepts for the path, each on the context, the groups of its own match, the operation
  and the raw value, and no other handler: the world it leaves is the handlers of
  exactly those rules folded over the world, and with recording callbacks the calls
  made are the firing rules, in order. Whether \<^verbatim>\<open>regex_match\<close> matches the whole
  path is \<^verbatim>\<open>std::regex_match\<close>'s contract, a parameter here.
\<close>

theorem HandleOp_fan_out:
  "HandleOp regex_match conds data path op val w =
     fold (\<lambda>c. snd (snd c) data (the (regex_match path (fst c))) op val)
       (filter (\<lambda>c. fires regex_match path op (fst c) (fst (snd c))) conds) w
   \<and> HandleOp regex_match (map (\<lambda>(i, re, ops). (re, ops, recorder i)) rules)
       data path op val calls =
     calls @ map (\<lambda>(i, re, ops). (i, data, the (regex_match path re), op, val))
       (filter (\<lambda>(i, re, ops). fires regex_match path op re ops) rules)"
proof
  show "HandleOp regex_match conds data path op val w =
     fold (\<lambda>c. snd (snd c) data (the (regex_match path (fst c))) op val)
       (filter (\<lambda>c. fires regex_match path op (fst c) (fst (snd c))) conds) w"
    by (induction conds arbitrary: w) (auto simp: fires_def)
  show "HandleOp regex_match (map (\<lambda>(i, re, ops). (re, ops, recorder i)) rules)
       data path op val calls =
     calls @ map (\<lambda>(i, re, ops). (i, data, the (regex_match path re), op, val))
       (filter (\<lambda>(i, re, ops). fires regex_match path op re ops) rules)"
    by (induction rules arbitrary: calls) (auto simp: fires_def recorder_def)
qed

theorem HandleOp_fan_out_witness:
  "HandleOp literal_match
     (map (\<lambda>(i, re, ops). (re, ops, recorder i))
        [(0, ''/items/7'', op_bit PATCH_OP_ADD OR op_bit PATCH_OP_REPLACE),
         (1, ''/items'', PATCH_OP_ANY),
         (2, ''/items/7'', PATCH_OP_ANY),
         (3, ''/items/7'', op_bit PATCH_OP_REMOVE)])
     () ''/items/7'' PATCH_OP_REPLACE (JInt 42) [] =
   [(0, (), [''/items/7''], PATCH_OP_REPLACE, JInt 42),
    (2, (), [''/items/7''], PATCH_OP_REPLACE, JInt 42)]"
  using HandleOp_fan_out [THEN conjunct2, of literal_match
      "[(0, ''/items/7'', op_bit PATCH_OP_ADD OR op_bit PATCH_OP_REPLACE),
        (1, ''/items'', PATCH_OP_ANY),
        (2, ''/items/7'', PATCH_OP_ANY),
        (3, ''/items/7'', op_bit PATCH_OP_REMOVE)]"
      "()" "''/items/7''" PATCH_OP_REPLACE "JInt 42" "[]"]
  by (simp add: fires_def literal_match_def PATCH_OP_ANY_def)

text \<open>
  The three example rules are what three \<^verbatim>\<open>AddCallback\<close> calls register, and a
  registered rule's wrapper does one of three things: on a remove it calls the callback
  on \<^verbatim>\<open>typed\<close> as its declaration left it, without decoding or logging; on another
  operation whose value decodes it calls the callback on the decoded value; and when
  the decoder throws it logs and calls the callback on \<^verbatim>\<open>typed\<close> as the decoder left
  it. In each case the rules before and after it run as they do without it.
\<close>

lemma example_conds_added:
  "AddCallback literal_regex from_json_point declared_point log_event ''/v'' PATCH_OP_ANY
       point_cb [] =
     Inr [(''/v'', PATCH_OP_ANY, wrapped from_json_point declared_point log_event point_cb)] \<and>
   AddCallback literal_regex from_json_string declared_string log_event ''/v'' PATCH_OP_ANY
       string_cb
       [(''/v'', PATCH_OP_ANY, wrapped from_json_point declared_point log_event point_cb)] =
     Inr [(''/v'', PATCH_OP_ANY, wrapped from_json_point declared_point log_event point_cb),
          (''/v'', PATCH_OP_ANY, wrapped from_json_string declared_string log_event string_cb)] \<and>
   AddCallback literal_regex from_json_int declared_int log_event ''/v'' PATCH_OP_ANY
       int_cb
       [(''/v'', PATCH_OP_ANY, wrapped from_json_point declared_point log_event point_cb),
        (''/v'', PATCH_OP_ANY, wrapped from_json_string declared_string log_event string_cb)] =
     Inr example_conds"
  by (simp add: AddCallback_def literal_regex_def example_conds_def)

lemma HandleOp_remove:
  assumes "ops AND op_bit PATCH_OP_REMOVE \<noteq> 0"
    and "regex_match path re = Some m"
  shows "HandleOp regex_match (pre @ (re, ops, wrapped from_json declared log cb) # post)
           data path PATCH_OP_REMOVE val w =
         HandleOp regex_match post data path PATCH_OP_REMOVE val
           (cb data m PATCH_OP_REMOVE
              (declared (HandleOp regex_match pre data path PATCH_OP_REMOVE val w))
              (HandleOp regex_match pre data path PATCH_OP_REMOVE val w))"
  using assms by (simp add: HandleOp_append wrapped_def)

lemma HandleOp_decode_failure:
  assumes "ops AND op_bit op \<noteq> 0"
    and "regex_match path re = Some m"
    and "op \<noteq> PATCH_OP_REMOVE"
    and "from_json val (declared (HandleOp regex_match pre data path op val w)) = (typed, True)"
  shows "HandleOp regex_match (pre @ (re, ops, wrapped from_json declared log cb) # post)
           data path op val w =
         HandleOp regex_match post data path op val
           (cb data m op typed
              (log ''failed to construct JSON patch operation value''
                 (HandleOp regex_match pre data path op val w)))"
  using assms by (simp add: HandleOp_append wrapped_def)

text \<open>
  C7. On a remove operation no rule decodes the raw value and none logs, whatever the
  raw value is; each firing rule's callback receives \<^verbatim>\<open>typed\<close> as the declaration
  \<^verbatim>\<open>T2 typed;\<close> left it. For the point and for \<^verbatim>\<open>std::string\<close> that is the
  default-constructed value. For \<^verbatim>\<open>int\<close> nothing has initialised it: with \<open>32765\<close>
  in its storage the callback receives \<open>32765\<close>, not the default value \<open>0\<close>.
\<close>

theorem remove_hands_uninitialised_int:
  "events (HandleOp literal_match example_conds () ''/v'' PATCH_OP_REMOVE (JInt 7)
       \<lparr>storage = 32765, events = []\<rparr>) =
     [PointValue (0, 0), StringValue [], IntValue 32765] \<and>
   events (HandleOp literal_match example_conds () ''/v'' PATCH_OP_REMOVE (JString ''raw'')
       \<lparr>storage = 32765, events = []\<rparr>) =
     [PointValue (0, 0), StringValue [], IntValue 32765] \<and>
   IntValue 32765 \<noteq> IntValue 0"
  by (simp add: example_conds_def literal_match_def PATCH_OP_ANY_def wrapped_def
      declared_point_def declared_string_def declared_int_def point_cb_def string_cb_def
      int_cb_def)

text \<open>
  C6. On a replace operation whose raw value is the object \<^verbatim>\<open>{"x": 1}\<close> the decoders
  of all three example rules throw. Each failure is logged inside its rule's wrapper,
  each callback is still called, and every rule runs. But the callbacks do not receive
  default-constructed values: the point decoder has written \<^verbatim>\<open>x\<close> before it throws
  on the missing \<^verbatim>\<open>y\<close>, and its callback receives \<open>(1, 0)\<close>; the \<^verbatim>\<open>int\<close> decoder
  throws before it writes, and its callback receives what the storage of the
  uninitialised \<^verbatim>\<open>typed\<close> holds, \<open>32765\<close>. Only the \<^verbatim>\<open>std::string\<close> rule receives
  its default, the empty string.
\<close>

theorem decode_failure_hands_stale_value:
  "from_json_point (JObject [(''x'', JInt 1)]) (0, 0) = ((1, 0), True) \<and>
   from_json_string (JObject [(''x'', JInt 1)]) [] = ([], True) \<and>
   from_json_int (JObject [(''x'', JInt 1)]) 32765 = (32765, True) \<and>
   events (HandleOp literal_match example_conds () ''/v'' PATCH_OP_REPLACE
       (JObject [(''x'', JInt 1)]) \<lparr>storage = 32765, events = []\<rparr>) =
     [Logged ''failed to construct JSON patch operation value'', PointValue (1, 0),
      Logged ''failed to construct JSON patch operation value'', StringValue [],
      Logged ''failed to construct JSON patch operation value'', IntValue 32765] \<and>
   PointValue (1, 0) \<noteq> PointValue (0, 0) \<and> IntValue 32765 \<noteq> IntValue 0"
  by (simp add: example_conds_def literal_match_def PATCH_OP_ANY_def wrapped_def
      from_json_point_def from_json_string_def from_json_int_def
      declared_point_def declared_string_def declared_int_def log_event_def
      point_cb_def string_cb_def int_cb_def)

section \<open>Material change and the version counter\<close>

subsection \<open>When a diff is empty\<close>

lemma sorted_alist_eqI:
  assumes sx: "sorted_wrt (<) (map fst (xs :: ('k::linorder \<times> 'v) list))" and sy: "sorted_wrt (<) (map fst ys)"
    and xy: "\<forall>kv\<in>set xs. map_of ys (fst kv) = Some (snd kv)"
    and yx: "\<forall>kv\<in>set ys. map_of xs (fst kv) \<noteq> None"
  shows "xs = ys"
proof -
  from sx sy have dx: "distinct (map fst xs)" and dy: "distinct (map fst ys)"
    and ox: "sorted (map fst xs)" and oy: "sorted (map fst ys)"
    by (simp_all add: strict_sorted_iff)
  have sub1: "set xs \<subseteq> set ys"
  proof
    fix kv assume "kv \<in> set xs"
    with xy have "map_of ys (fst kv) = Some (snd kv)" by blast
    then have "(fst kv, snd kv) \<in> set ys" by (rule map_of_SomeD)
    then show "kv \<in> set ys" by simp
  qed
  have sub2: "set ys \<subseteq> set xs"
  proof
    fix kv assume in_ys: "kv \<in> set ys"
    with yx obtain v where v: "map_of xs (fst kv) = Some v" by blast
    then have in_xs: "(fst kv, v) \<in> set xs" by (rule map_of_SomeD)
    with xy have "map_of ys (fst kv) = Some v" by fastforce
    moreover from dy in_ys have "map_of ys (fst kv) = Some (snd kv)"
      by (simp add: map_of_eq_Some_iff)
    ultimately have "v = snd kv" by simp
    with in_xs show "kv \<in> set xs" by simp
  qed
  from sub1 sub2 have eq: "set xs = set ys" by blast
  from dx have "inj_on fst (set xs)" by (simp add: distinct_map)
  with eq have "inj_on fst (set xs \<union> set ys)" by simp
  then show ?thesis
    using ox dx oy dy eq by (rule map_sorted_distinct_set_unique)
qed

lemma wf_members_map_of:
  "wf_members kvs \<Longrightarrow> map_of kvs k = Some v \<Longrightarrow> wf_json v"
  by (induction kvs) (auto split: if_splits)

lemma diff_Nil_iff:
  "wf_json a \<Longrightarrow> wf_json b \<Longrightarrow> (diff_ops a b p = []) = (a = b)"
  "wf_elems xs \<Longrightarrow> wf_elems ys \<Longrightarrow>
     (diff_elems xs ys i p = []) = (take (length ys) xs = take (length xs) ys)"
  "wf_members ms \<Longrightarrow> wf_members ns \<Longrightarrow>
     (diff_members ms ns p = []) = (\<forall>kv\<in>set ms. map_of ns (fst kv) = Some (snd kv))"
proof (induction a b p and xs ys i p and ms ns p rule: diff_ops_diff_elems_diff_members.induct)
  case (1 source target path)
  show ?case
  proof (cases "source = target")
    case True
    then show ?thesis by (simp add: diff_ops.simps)
  next
    case ne: False
    have "diff_ops source target path \<noteq> []"
    proof (cases source)
      case (JArray xs)
      show ?thesis
      proof (cases target)
        case target: (JArray ys)
        from ne JArray target have "xs \<noteq> ys" by simp
        from "1.prems" JArray target have wf: "wf_elems xs" "wf_elems ys" by simp_all
        note IH = "1.IH"(1) [OF ne JArray target wf]
        show ?thesis
        proof (cases "length xs = length ys")
          case True
          with \<open>xs \<noteq> ys\<close> have "take (length ys) xs \<noteq> take (length xs) ys" by auto
          with IH have "diff_elems xs ys 0 path \<noteq> []" by simp
          with ne JArray target show ?thesis by (simp add: diff_ops.simps)
        next
          case False
          with ne JArray target show ?thesis by (auto simp: diff_ops.simps)
        qed
      qed (use ne JArray in \<open>simp_all add: diff_ops.simps\<close>)
    next
      case (JObject xs)
      show ?thesis
      proof (cases target)
        case target: (JObject ys)
        from ne JObject target have "xs \<noteq> ys" by simp
        from "1.prems" JObject target have wf: "wf_members xs" "wf_members ys"
          and so: "sorted_wrt (<) (map fst xs)" "sorted_wrt (<) (map fst ys)" by simp_all
        note IH = "1.IH"(2) [OF ne JObject target wf]
        show ?thesis
        proof
          assume "diff_ops source target path = []"
          with ne JObject target have d: "diff_members xs ys path = []"
            and a: "filter (\<lambda>(k, v). map_of xs k = None) ys = []"
            by (simp_all add: diff_ops.simps)
          from d IH have "\<forall>kv\<in>set xs. map_of ys (fst kv) = Some (snd kv)" by simp
          moreover from a have "\<forall>kv\<in>set ys. map_of xs (fst kv) \<noteq> None"
            by (auto simp: filter_empty_conv)
          ultimately have "xs = ys" using so by (intro sorted_alist_eqI) 
          with \<open>xs \<noteq> ys\<close> show False by simp
        qed
      qed (use ne JObject in \<open>simp_all add: diff_ops.simps\<close>)
    qed (use ne in \<open>simp_all add: diff_ops.simps op_replace_def\<close>)
    with ne show ?thesis by simp
  qed
next
  case (4 x xs y ys i path)
  then show ?case by auto
next
  case (6 kv xs ys path)
  show ?case
  proof (cases "map_of ys (fst kv)")
    case None
    with 6 show ?thesis by simp
  next
    case (Some v')
    from "6.prems" Some have "wf_json (snd kv)" "wf_json v'" "wf_members xs"
      by (auto dest: wf_members_map_of)
    with 6 Some show ?thesis by auto
  qed
qed simp_all


lemma sorted_keys_filter:
  "sorted_wrt (<) (map fst (kvs :: (string \<times> json) list)) \<Longrightarrow>
   sorted_wrt (<) (map fst (filter P kvs))"
  by (induction kvs) auto

lemma wf_members_filter: "wf_members kvs \<Longrightarrow> wf_members (filter P kvs)"
  by (induction kvs) auto

lemma map_of_filter_other:
  "k' \<noteq> k \<Longrightarrow> map_of (filter (\<lambda>kv. fst kv \<noteq> k) kvs) k' = map_of kvs k'"
  by (induction kvs) auto

lemma diff_members_filter_source:
  "distinct (map fst xs) \<Longrightarrow> map_of xs k = Some va \<Longrightarrow> map_of ys k = Some vb \<Longrightarrow>
   length (diff_members xs ys p) =
     length (diff_ops va vb (p @ ''/'' @ escape k))
     + length (diff_members (filter (\<lambda>kv. fst kv \<noteq> k) xs) ys p)"
proof (induction xs)
  case Nil
  then show ?case by simp
next
  case (Cons kv xs)
  show ?case
  proof (cases "fst kv = k")
    case True
    with Cons.prems have "snd kv = va" and "k \<notin> fst ` set xs" by auto
    then have "filter (\<lambda>kv. fst kv \<noteq> k) xs = xs"
      by (auto simp: filter_id_conv)
    with True \<open>snd kv = va\<close> Cons.prems(3) show ?thesis by simp
  next
    case False
    with Cons.prems have "map_of xs k = Some va" "distinct (map fst xs)" by auto
    with Cons.IH Cons.prems(3) False show ?thesis by simp
  qed
qed

lemma diff_members_filter_target:
  "k \<notin> fst ` set xs \<Longrightarrow>
   diff_members xs (filter (\<lambda>kv. fst kv \<noteq> k) ys) p = diff_members xs ys p"
  by (induction xs) (auto simp: map_of_filter_other)

lemma added_members_filter:
  assumes "map_of xs k \<noteq> None"
  shows "filter (\<lambda>(k', v). map_of xs k' = None) ys =
         filter (\<lambda>(k', v). map_of (filter (\<lambda>kv. fst kv \<noteq> k) xs) k' = None)
           (filter (\<lambda>kv. fst kv \<noteq> k) ys)"
  using assms by (induction ys) (auto simp: map_of_filter_other)

lemma members_diff_Nil_iff:
  assumes "wf_json (JObject xs)" and "wf_json (JObject ys)"
  shows "(diff_members xs ys p = [] \<and> filter (\<lambda>(k, v). map_of xs k = None) ys = [])
         = (xs = ys)"
proof
  assume l: "diff_members xs ys p = [] \<and> filter (\<lambda>(k, v). map_of xs k = None) ys = []"
  with assms have "\<forall>kv\<in>set xs. map_of ys (fst kv) = Some (snd kv)"
    by (simp add: diff_Nil_iff(3))
  moreover from l have "\<forall>kv\<in>set ys. map_of xs (fst kv) \<noteq> None"
    by (auto simp: filter_empty_conv)
  ultimately show "xs = ys"
    using assms by (intro sorted_alist_eqI) simp_all
next
  assume "xs = ys"
  moreover from assms have "distinct (map fst xs)" by (simp add: strict_sorted_iff)
  ultimately show "diff_members xs ys p = [] \<and> filter (\<lambda>(k, v). map_of xs k = None) ys = []"
    using assms by (auto simp: diff_Nil_iff(3) filter_empty_conv weak_map_of_SomeI)
qed

lemma diff_ops_objects:
  "xs \<noteq> ys \<Longrightarrow> diff_ops (JObject xs) (JObject ys) p =
     diff_members xs ys p
     @ map (\<lambda>(k, v). op_add (p @ ''/'' @ escape k) v)
         (filter (\<lambda>(k, v). map_of xs k = None) ys)"
  by (simp add: diff_ops.simps)

lemma stamped_diff_size:
  assumes wf: "wf_json (JObject xs)" "wf_json (JObject ys)"
    and vx: "map_of xs k = Some (JInt a)" and vy: "map_of ys k = Some (JInt b)"
    and ne: "a \<noteq> b"
  shows "(1 < length (diff_ops (JObject xs) (JObject ys) p)) =
         (filter (\<lambda>kv. fst kv \<noteq> k) xs \<noteq> filter (\<lambda>kv. fst kv \<noteq> k) ys)"
proof -
  let ?xs = "filter (\<lambda>kv. fst kv \<noteq> k) xs" and ?ys = "filter (\<lambda>kv. fst kv \<noteq> k) ys"
  from vx vy ne have "xs \<noteq> ys" by auto
  from wf have dx: "distinct (map fst xs)" by (simp add: strict_sorted_iff)
  have one: "length (diff_ops (JInt a) (JInt b) (p @ ''/'' @ escape k)) = 1"
    using ne by (simp add: diff_ops.simps)
  have "k \<notin> fst ` set ?xs" by auto
  then have "diff_members ?xs ys p = diff_members ?xs ?ys p"
    by (simp add: diff_members_filter_target)
  with diff_members_filter_source [OF dx vx vy, of p] one
  have m: "length (diff_members xs ys p) = 1 + length (diff_members ?xs ?ys p)"
    by simp
  from vx have a: "filter (\<lambda>(k', v). map_of xs k' = None) ys =
      filter (\<lambda>(k', v). map_of ?xs k' = None) ?ys"
    by (intro added_members_filter) simp
  from wf have wf': "wf_json (JObject ?xs)" "wf_json (JObject ?ys)"
    by (simp_all add: sorted_keys_filter wf_members_filter)
  have "(1 < length (diff_ops (JObject xs) (JObject ys) p)) =
        (\<not> (diff_members ?xs ?ys p = [] \<and> filter (\<lambda>(k', v). map_of ?xs k' = None) ?ys = []))"
    using \<open>xs \<noteq> ys\<close> m a by (auto simp: diff_ops_objects)
  also have "\<dots> = (?xs \<noteq> ?ys)"
    using members_diff_Nil_iff [OF wf'] by simp
  finally show ?thesis .
qed


lemma map_assign_keys: "set (map fst (map_assign k v kvs)) = insert k (set (map fst kvs))"
  by (induction k v kvs rule: map_assign.induct) auto

lemma map_assign_sorted:
  "sorted_wrt (<) (map fst kvs) \<Longrightarrow> sorted_wrt (<) (map fst (map_assign k v kvs))"
proof (induction k v kvs rule: map_assign.induct)
  case (1 k v)
  then show ?case by simp
next
  case (2 k v k' v' kvs)
  from "2.prems" have above: "\<forall>x\<in>set (map fst kvs). k' < x"
    and rest: "sorted_wrt (<) (map fst kvs)" by simp_all
  consider "k = k'" | "k < k'" | "k' < k" by (meson linorder_less_linear)
  then show ?case
  proof cases
    case 1
    with above rest show ?thesis by simp
  next
    case 2
    with above have "\<forall>x\<in>set (map fst kvs). k < x" by (meson less_trans)
    with 2 above rest show ?thesis by simp
  next
    case 3
    then have "k \<noteq> k'" "\<not> k < k'" by auto
    moreover from this rest "2.IH" have "sorted_wrt (<) (map fst (map_assign k v kvs))"
      by simp
    moreover from above 3 have "\<forall>x\<in>set (map fst (map_assign k v kvs)). k' < x"
      unfolding map_assign_keys by simp
    ultimately show ?thesis by simp
  qed
qed

lemma map_assign_wf: "wf_json v \<Longrightarrow> wf_members kvs \<Longrightarrow> wf_members (map_assign k v kvs)"
  by (induction kvs) auto

lemma map_assign_others:
  "sorted_wrt (<) (map fst kvs) \<Longrightarrow>
   filter (\<lambda>kv. fst kv \<noteq> k) (map_assign k v kvs) = filter (\<lambda>kv. fst kv \<noteq> k) kvs"
  by (induction kvs) (auto simp: filter_id_conv)

lemma json_assign_Inr:
  assumes "json_assign j k v = Inr st" and "wf_json j" and "wf_json v"
  shows "wf_json st" and "st = JObject (json_members st)"
    and "filter (\<lambda>kv. fst kv \<noteq> k) (json_members st) = filter (\<lambda>kv. fst kv \<noteq> k) (json_members j)"
  using assms
  by (cases j; auto simp: map_assign_sorted map_assign_wf map_assign_others)+


lemma diff_members_split:
  "distinct (map fst xs) \<Longrightarrow> map_of xs k = Some va \<Longrightarrow> map_of ys k = Some vb \<Longrightarrow>
   \<exists>A B. diff_members xs ys p = A @ diff_ops va vb (p @ ''/'' @ escape k) @ B \<and>
          diff_members (filter (\<lambda>kv. fst kv \<noteq> k) xs) ys p = A @ B"
proof (induction xs)
  case Nil
  then show ?case by simp
next
  case (Cons kv xs)
  show ?case
  proof (cases "fst kv = k")
    case True
    with Cons.prems have "snd kv = va" and "k \<notin> fst ` set xs" by auto
    then have "filter (\<lambda>kv. fst kv \<noteq> k) xs = xs"
      by (auto simp: filter_id_conv)
    with True \<open>snd kv = va\<close> Cons.prems(3)
    have "diff_members (kv # xs) ys p =
            [] @ diff_ops va vb (p @ ''/'' @ escape k) @ diff_members xs ys p \<and>
          diff_members (filter (\<lambda>kv. fst kv \<noteq> k) (kv # xs)) ys p = [] @ diff_members xs ys p"
      by simp
    then show ?thesis by blast
  next
    case False
    with Cons.prems have "map_of xs k = Some va" "distinct (map fst xs)" by auto
    with Cons.IH Cons.prems(3) obtain A B where
      "diff_members xs ys p = A @ diff_ops va vb (p @ ''/'' @ escape k) @ B"
      "diff_members (filter (\<lambda>kv. fst kv \<noteq> k) xs) ys p = A @ B"
      by blast
    with False have "diff_members (kv # xs) ys p =
         ((case map_of ys (fst kv) of
             Some v' \<Rightarrow> diff_ops (snd kv) v' (p @ ''/'' @ escape (fst kv))
           | None \<Rightarrow> [op_remove (p @ ''/'' @ escape (fst kv))]) @ A)
         @ diff_ops va vb (p @ ''/'' @ escape k) @ B \<and>
       diff_members (filter (\<lambda>kv. fst kv \<noteq> k) (kv # xs)) ys p =
         ((case map_of ys (fst kv) of
             Some v' \<Rightarrow> diff_ops (snd kv) v' (p @ ''/'' @ escape (fst kv))
           | None \<Rightarrow> [op_remove (p @ ''/'' @ escape (fst kv))]) @ A) @ B"
      by simp
    then show ?thesis by blast
  qed
qed

lemma stamped_diff_trivial:
  assumes wf: "wf_json (JObject xs)" "wf_json (JObject ys)"
    and vx: "map_of xs k = Some (JInt a)" and vy: "map_of ys k = Some (JInt b)"
    and ne: "a \<noteq> b"
    and same: "filter (\<lambda>kv. fst kv \<noteq> k) xs = filter (\<lambda>kv. fst kv \<noteq> k) ys"
  shows "diff_ops (JObject xs) (JObject ys) p = [op_replace (p @ ''/'' @ escape k) (JInt b)]"
proof -
  let ?xs = "filter (\<lambda>kv. fst kv \<noteq> k) xs" and ?ys = "filter (\<lambda>kv. fst kv \<noteq> k) ys"
  from vx vy ne have "xs \<noteq> ys" by auto
  from wf have dx: "distinct (map fst xs)" by (simp add: strict_sorted_iff)
  from wf have wf': "wf_json (JObject ?xs)" "wf_json (JObject ?ys)"
    by (simp_all add: sorted_keys_filter wf_members_filter)
  from members_diff_Nil_iff [OF wf', of p] same
  have nil: "diff_members ?xs ?ys p = []" "filter (\<lambda>(k', v). map_of ?xs k' = None) ?ys = []"
    by simp_all
  have "k \<notin> fst ` set ?xs" by auto
  then have "diff_members ?xs ys p = diff_members ?xs ?ys p"
    by (simp add: diff_members_filter_target)
  with nil have "diff_members ?xs ys p = []" by simp
  with diff_members_split [OF dx vx vy, of p]
  have "diff_members xs ys p = diff_ops (JInt a) (JInt b) (p @ ''/'' @ escape k)"
    by auto
  moreover from vx have "filter (\<lambda>(k', v). map_of xs k' = None) ys =
      filter (\<lambda>(k', v). map_of ?xs k' = None) ?ys"
    by (intro added_members_filter) simp
  ultimately show ?thesis
    using \<open>xs \<noteq> ys\<close> nil ne by (simp add: diff_ops_objects diff_ops.simps)
qed

lemma sint_succ_neq: "sint (w + 1 :: 32 word) \<noteq> sint w"
proof
  assume "sint (w + 1) = sint w"
  then have "word_of_int (sint (w + 1)) = (word_of_int (sint w) :: 32 word)" by simp
  then have "w + 1 = w" by simp
  then show False by simp
qed

lemma escape_VERSION_KEY: "''/'' @ escape VERSION_KEY = ''/__syncer_data_version''"
  by (simp add: escape_def VERSION_KEY_def)

lemma Update_diff:
  assumes inv: "stored_inv s" and j: "wf_json j"
    and "next": "json_assign j VERSION_KEY (JInt (sint (ver s + 1))) = Inr next"
  shows "(1 < json_size (json_diff (state s) next)) =
           (domain_members j \<noteq> domain_members (state s))"
    and "domain_members j = domain_members (state s) \<Longrightarrow>
         json_diff (state s) next =
           JArray [op_replace ''/__syncer_data_version'' (JInt (sint (ver s + 1)))]"
proof -
  let ?xs = "json_members (state s)" and ?ys = "json_members next"
  from inv have xs: "state s = JObject ?xs" "wf_json (JObject ?xs)"
    and vx: "map_of ?xs VERSION_KEY = Some (JInt (sint (ver s)))"
    by (simp_all add: stored_inv_def)
  from json_assign_Inr [OF "next" j] have ys: "next = JObject ?ys" "wf_json (JObject ?ys)"
    and dom: "domain_members next = domain_members j"
    by (simp_all add: domain_members_def)
  from "next" have vy: "map_of ?ys VERSION_KEY = Some (JInt (sint (ver s + 1)))"
    by (rule json_assign_members)
  have ne: "sint (ver s) \<noteq> sint (ver s + 1)"
    using sint_succ_neq [of "ver s"] by simp
  from stamped_diff_size [OF xs(2) ys(2) vx vy ne, of "[]"] xs(1) ys(1) dom
  show "(1 < json_size (json_diff (state s) next)) =
           (domain_members j \<noteq> domain_members (state s))"
    by (auto simp: json_diff_def domain_members_def)
  assume "domain_members j = domain_members (state s)"
  with dom have "filter (\<lambda>kv. fst kv \<noteq> VERSION_KEY) ?xs = filter (\<lambda>kv. fst kv \<noteq> VERSION_KEY) ?ys"
    by (simp add: domain_members_def)
  from stamped_diff_trivial [OF xs(2) ys(2) vx vy ne this, of "[]"] xs(1) ys(1)
  show "json_diff (state s) next =
           JArray [op_replace ''/__syncer_data_version'' (JInt (sint (ver s + 1)))]"
    using escape_VERSION_KEY by (simp add: json_diff_def)
qed


lemma sint_succ: "sint (w :: 32 word) < 2147483647 \<Longrightarrow> sint (w + 1) = sint w + 1"
proof -
  assume below: "sint w < 2147483647"
  have "sint (w + 1) = signed_take_bit 31 (sint w + sint (1 :: 32 word))"
    by (simp add: sint_word_ariths)
  also have "\<dots> = signed_take_bit 31 (sint w + 1)"
    by simp
  also have "\<dots> = sint w + 1"
  proof (rule signed_take_bit_int_eq_self)
    have "- (2 ^ 31) \<le> sint w"
      using sint_ge [of w] by simp
    then show "- (2 ^ 31) \<le> sint w + 1" by simp
    show "sint w + 1 < 2 ^ 31"
      using below by simp
  qed
  finally show ?thesis .
qed

lemma Server_stored_inv:
  assumes enc: "\<forall>d j. to_json d = Inr j \<longrightarrow> wf_json j"
    and ctor: "Server to_json dump publish data = Inr s"
  shows "stored_inv s"
proof -
  from ctor obtain j where j: "to_json data = Inr j"
    and st: "json_assign j VERSION_KEY (JInt 0) = Inr (state s)" and v: "ver s = 0"
    by (auto simp: Server_Inr)
  from enc j have "wf_json j" by blast
  with json_assign_Inr(1,2) [OF st] json_assign_members [OF st] v show ?thesis
    by (simp add: stored_inv_def)
qed

lemma Update_stored_inv:
  assumes enc: "\<forall>d j. to_json d = Inr j \<longrightarrow> wf_json j"
    and inv: "stored_inv s"
  shows "stored_inv (snd (Update to_json dump publish s data))"
proof -
  obtain r s' where u: "Update to_json dump publish s data = (r, s')"
    by (cases "Update to_json dump publish s data")
  then have "stored_inv s'"
  proof (cases rule: Update_cases)
    case (commit j "next")
    from enc commit(1) have "wf_json j" by blast
    with json_assign_Inr(1,2) [OF commit(2)] json_assign_members [OF commit(2)] commit(5)
    show ?thesis by (simp add: stored_inv_def)
  qed (use inv in simp_all)
  with u show ?thesis by simp
qed

lemma updates_stored_inv:
  assumes enc: "\<forall>d j. to_json d = Inr j \<longrightarrow> wf_json j"
  shows "stored_inv s \<Longrightarrow> stored_inv (updates to_json dump publish s ds)"
  unfolding updates_def
  by (induction ds arbitrary: s) (simp_all add: Update_stored_inv [OF enc])

subsection \<open>The version counter\<close>

lemma Update_noop:
  assumes inv: "stored_inv s" and j: "to_json data = Inr (JObject m)" and wf: "wf_json (JObject m)"
    and same: "domain_members (JObject m) = domain_members (state s)"
  shows "Update to_json dump publish s data = (None, s)"
proof -
  obtain "next" where n: "json_assign (JObject m) VERSION_KEY (JInt (sint (ver s + 1))) = Inr next"
    by simp
  from Update_diff(1) [OF inv wf n] same have "\<not> 1 < json_size (json_diff (state s) next)"
    by simp
  with j n show ?thesis by (simp add: Update_def)
qed

lemma Update_domain:
  assumes inv: "stored_inv s" and j: "to_json data = Inr (JObject m)" and wf: "wf_json (JObject m)"
  shows "domain_members (state (snd (Update to_json dump publish s data))) = domain_members (JObject m)"
proof -
  obtain r s' where u: "Update to_json dump publish s data = (r, s')"
    by (cases "Update to_json dump publish s data")
  then have "domain_members (state s') = domain_members (JObject m)"
  proof (cases rule: Update_cases)
    case (noop j' "next")
    with j have "j' = JObject m" by simp
    with Update_diff(1) [OF inv wf] noop show ?thesis by simp
  next
    case (commit j' "next")
    with j have n: "json_assign (JObject m) VERSION_KEY (JInt (sint (ver s + 1))) = Inr next"
      by simp
    from json_assign_Inr(3) [OF n wf]
    have "domain_members next = domain_members (JObject m)"
      by (simp add: domain_members_def)
    with commit(5) show ?thesis by simp
  qed (use j in auto)
  with u show ?thesis by simp
qed

lemma to_json_a_wf: "\<forall>d j. to_json_a d = Inr j \<longrightarrow> wf_json j"
  by (auto simp: to_json_a_def)

lemma Update_commit:
  assumes inv: "stored_inv s" and j: "to_json data = Inr j" and wf: "wf_json j"
    and n: "json_assign j VERSION_KEY (JInt (sint (ver s + 1))) = Inr next"
    and differs: "domain_members j \<noteq> domain_members (state s)"
  shows "snd (Update to_json dump publish s data) =
           s\<lparr>state := next, ver := ver s + 1, reply := dump next,
             pub := pub s @ [dump (json_diff (state s) next)]\<rparr>"
proof -
  from Update_diff(1) [OF inv wf n] differs have "1 < json_size (json_diff (state s) next)"
    by simp
  with j n show ?thesis by (simp add: Update_def Let_def)
qed

lemma updates_snoc:
  "updates to_json dump publish s (ds @ [d]) =
     snd (Update to_json dump publish (updates to_json dump publish s ds) d)"
  by (simp add: updates_def)

lemma flips_Suc: "flips (Suc n) = flips n @ [int (n mod 2)]"
  by (simp add: flips_def)

lemma flip_differs: "(if n = 0 then 1 else int ((n - 1) mod 2)) \<noteq> int (n mod 2)"
proof (cases n)
  case 0
  then show ?thesis by simp
next
  case (Suc m)
  have "m mod 2 \<noteq> Suc m mod 2"
    by (simp add: mod_Suc)
  with Suc show ?thesis by simp
qed

lemma scenario_server0_stored: "stored_inv scenario_server0"
  by (simp add: stored_inv_def scenario_server0_def scenario_state0_def VERSION_KEY_def)

text \<open>The Scenario A server after \<open>n\<close> updates that each change \<^verbatim>\<open>a\<close>: every one
  commits, so the counter is \<open>n\<close> as a 32-bit word.\<close>

lemma flips_run:
  "stored_inv (updates to_json_a json_dump publish_ok scenario_server0 (flips n)) \<and>
   ver (updates to_json_a json_dump publish_ok scenario_server0 (flips n)) = of_nat n \<and>
   domain_members (state (updates to_json_a json_dump publish_ok scenario_server0 (flips n))) =
     [(''a'', JInt (if n = 0 then 1 else int ((n - 1) mod 2)))]"
proof (induction n)
  case 0
  show ?case
    using scenario_server0_stored
    by (simp add: flips_def updates_def domain_members_def VERSION_KEY_def
        scenario_server0_def scenario_state0_def)
next
  case (Suc n)
  let ?s = "updates to_json_a json_dump publish_ok scenario_server0 (flips n)"
  let ?d = "int (n mod 2)"
  let ?j = "JObject [(''a'', JInt ?d)]"
  from Suc.IH have inv: "stored_inv ?s" and v: "ver ?s = of_nat n"
    and dom: "domain_members (state ?s) = [(''a'', JInt (if n = 0 then 1 else int ((n - 1) mod 2)))]"
    by simp_all
  have j: "to_json_a ?d = Inr ?j"
    by (simp add: to_json_a_def)
  have wf: "wf_json ?j"
    by simp
  obtain "next" where n: "json_assign ?j VERSION_KEY (JInt (sint (ver ?s + 1))) = Inr next"
    by simp
  have dj: "domain_members ?j = [(''a'', JInt ?d)]"
    by (simp add: domain_members_def VERSION_KEY_def)
  have "(if n = 0 then 1 else int ((n - 1) mod 2)) \<noteq> ?d"
    by (rule flip_differs)
  with dj dom have differs: "domain_members ?j \<noteq> domain_members (state ?s)"
    by simp
  let ?s' = "snd (Update to_json_a json_dump publish_ok ?s ?d)"
  from Update_commit [where to_json = to_json_a and dump = json_dump and publish = publish_ok,
      OF inv j wf n differs]
  have s': "?s' = ?s\<lparr>state := next, ver := ver ?s + 1, reply := json_dump next,
                      pub := pub ?s @ [json_dump (json_diff (state ?s) next)]\<rparr>" .
  have run: "updates to_json_a json_dump publish_ok scenario_server0 (flips (Suc n)) = ?s'"
    by (simp only: flips_Suc updates_snoc)
  have "stored_inv ?s'"
    using to_json_a_wf inv by (rule Update_stored_inv)
  moreover from s' v have "ver ?s' = of_nat (Suc n)"
    by simp
  moreover from json_assign_Inr(3) [OF n wf] s' dj
  have "domain_members (state ?s') = [(''a'', JInt ?d)]"
    by (simp add: domain_members_def)
  ultimately show ?case
    unfolding run by simp
qed

text \<open>
  C1, as stated, fails at the end of the counter's range. \<^verbatim>\<open>ver_\<close> is an \<^verbatim>\<open>int\<close>;
  the Scenario A server, after \<open>2147483647\<close> updates that each change \<^verbatim>\<open>a\<close>,
  serves the version \<open>2147483647\<close> with \<^verbatim>\<open>a = 0\<close>, and one more update, to
  \<^verbatim>\<open>a = 1\<close>, commits and serves the version \<open>-2147483648\<close>: the version has gone
  down, and not up by one.
\<close>

theorem version_wraps:
  "Server to_json_a json_dump publish_ok 1 = Inr scenario_server0 \<and>
   sint (ver (updates to_json_a json_dump publish_ok scenario_server0 (flips 2147483647))) =
     2147483647 \<and>
   domain_members
     (state (updates to_json_a json_dump publish_ok scenario_server0 (flips 2147483647))) =
     [(''a'', JInt 0)] \<and>
   sint (ver (snd (Update to_json_a json_dump publish_ok
     (updates to_json_a json_dump publish_ok scenario_server0 (flips 2147483647)) 1))) =
     - 2147483648 \<and>
   map_of (json_members (state (snd (Update to_json_a json_dump publish_ok
     (updates to_json_a json_dump publish_ok scenario_server0 (flips 2147483647)) 1))))
       VERSION_KEY =
     Some (JInt (- 2147483648))"
proof -
  let ?s = "updates to_json_a json_dump publish_ok scenario_server0 (flips 2147483647)"
  let ?j = "JObject [(''a'', JInt 1)]"
  from flips_run [of 2147483647] have inv: "stored_inv ?s"
    and v: "ver ?s = 2147483647"
    and dom: "domain_members (state ?s) = [(''a'', JInt 0)]"
    by simp_all
  have j: "to_json_a 1 = Inr ?j"
    by (simp add: to_json_a_def)
  have wf: "wf_json ?j"
    by simp
  obtain "next" where n: "json_assign ?j VERSION_KEY (JInt (sint (ver ?s + 1))) = Inr next"
    by simp
  have "domain_members ?j = [(''a'', JInt 1)]"
    by (simp add: domain_members_def VERSION_KEY_def)
  with dom have differs: "domain_members ?j \<noteq> domain_members (state ?s)"
    by simp
  let ?s' = "snd (Update to_json_a json_dump publish_ok ?s 1)"
  from Update_commit [where to_json = to_json_a and dump = json_dump and publish = publish_ok,
      OF inv j wf n differs] v have v': "ver ?s' = 2147483647 + 1"
    by simp
  have "stored_inv ?s'"
    using to_json_a_wf inv by (rule Update_stored_inv)
  then have "map_of (json_members (state ?s')) VERSION_KEY = Some (JInt (sint (ver ?s')))"
    by (simp add: stored_inv_def)
  with v v' dom scenario_construct show ?thesis
    by simp
qed

text \<open>
  C1, amended. On a server reached from construction by \<^verbatim>\<open>Update\<close> calls, whose
  data type encodes to well-formed documents, and whose version is below
  \<open>2147483647\<close>, a further \<^verbatim>\<open>Update\<close> never lowers the version; it raises it by
  exactly one when the members of the new encoding other than the version member differ
  from those of the stored state, and leaves it unchanged when they are the same, and
  also when \<^verbatim>\<open>to_json\<close> throws or the encoding cannot take the version member; and
  when the diff against the stamped encoding is the single replace of the version
  member, the domain members are equal and the version is unchanged. Whether
  \<^verbatim>\<open>Publish\<close> throws makes no difference to the version.
\<close>

theorem version_monotonic:
  assumes enc: "\<forall>d j. to_json d = Inr j \<longrightarrow> wf_json j"
    and ctor: "Server to_json dump publish data0 = Inr s0"
    and s: "s = updates to_json dump publish s0 ds"
    and below: "sint (ver s) < 2147483647"
    and upd: "Update to_json dump publish s data = (r, s')"
  shows "sint (ver s) \<le> sint (ver s') \<and>
         (\<forall>j next. to_json data = Inr j \<and>
              json_assign j VERSION_KEY (JInt (sint (ver s + 1))) = Inr next \<longrightarrow>
            sint (ver s') = (if domain_members j \<noteq> domain_members (state s)
                             then sint (ver s) + 1 else sint (ver s))) \<and>
         (\<forall>e. to_json data = Inl e \<longrightarrow> ver s' = ver s) \<and>
         (\<forall>j e. to_json data = Inr j \<and>
              json_assign j VERSION_KEY (JInt (sint (ver s + 1))) = Inl e \<longrightarrow>
            ver s' = ver s) \<and>
         (\<forall>j next. to_json data = Inr j \<and>
              json_assign j VERSION_KEY (JInt (sint (ver s + 1))) = Inr next \<and>
              json_diff (state s) next =
                JArray [op_replace ''/__syncer_data_version'' (JInt (sint (ver s + 1)))] \<longrightarrow>
            domain_members j = domain_members (state s) \<and> ver s' = ver s)"
proof -
  from below have succ: "sint (ver s + 1) = sint (ver s) + 1"
    by (rule sint_succ)
  have inv: "stored_inv s"
    unfolding s by (rule updates_stored_inv [OF enc Server_stored_inv [OF enc ctor]])
  have trivial: "domain_members j = domain_members (state s) \<and> ver s' = ver s"
    if j: "to_json data = Inr j"
      and n: "json_assign j VERSION_KEY (JInt (sint (ver s + 1))) = Inr next"
      and d: "json_diff (state s) next =
               JArray [op_replace ''/__syncer_data_version'' (JInt (sint (ver s + 1)))]"
    for j "next"
  proof -
    from enc j have "wf_json j" by blast
    from d have small_diff: "\<not> 1 < json_size (json_diff (state s) next)" by simp
    with Update_diff(1) [OF inv \<open>wf_json j\<close> n]
    have "domain_members j = domain_members (state s)" by simp
    moreover from upd j n small_diff have "s' = s" by (simp add: Update_def)
    ultimately show ?thesis by simp
  qed
  from upd have "sint (ver s) \<le> sint (ver s') \<and>
         (\<forall>j next. to_json data = Inr j \<and>
              json_assign j VERSION_KEY (JInt (sint (ver s + 1))) = Inr next \<longrightarrow>
            sint (ver s') = (if domain_members j \<noteq> domain_members (state s)
                             then sint (ver s) + 1 else sint (ver s))) \<and>
         (\<forall>e. to_json data = Inl e \<longrightarrow> ver s' = ver s) \<and>
         (\<forall>j e. to_json data = Inr j \<and>
              json_assign j VERSION_KEY (JInt (sint (ver s + 1))) = Inl e \<longrightarrow>
            ver s' = ver s)"
  proof (cases rule: Update_cases)
    case (noop j "next")
    from enc noop(1) have "wf_json j" by blast
    from Update_diff(1) [OF inv this noop(2)] noop show ?thesis by simp
  next
    case (commit j "next")
    from enc commit(1) have "wf_json j" by blast
    from Update_diff(1) [OF inv this commit(2)] commit succ show ?thesis by simp
  qed simp_all
  with trivial show ?thesis by blast
qed

theorem version_monotonic_witness:
  "Server to_json_a json_dump publish_ok 1 = Inr scenario_server0 \<and>
   scenario_server0 = updates to_json_a json_dump publish_ok scenario_server0 [] \<and>
   sint (ver scenario_server0) < 2147483647 \<and>
   Update to_json_a json_dump publish_ok scenario_server0 2 = (None, scenario_server1) \<and>
   to_json_a 2 = Inr (JObject [(''a'', JInt 2)]) \<and>
   domain_members (JObject [(''a'', JInt 2)]) \<noteq> domain_members (state scenario_server0) \<and>
   sint (ver scenario_server0) = 0 \<and> sint (ver scenario_server1) = 1 \<and>
   scenario_server1 = updates to_json_a json_dump publish_ok scenario_server0 [2] \<and>
   sint (ver scenario_server1) < 2147483647 \<and>
   Update to_json_a json_dump publish_ok scenario_server1 2 = (None, scenario_server1) \<and>
   domain_members (JObject [(''a'', JInt 2)]) = domain_members (state scenario_server1) \<and>
   json_assign (JObject [(''a'', JInt 2)]) VERSION_KEY (JInt (sint (ver scenario_server1 + 1))) =
     Inr (JObject [(''__syncer_data_version'', JInt 2), (''a'', JInt 2)]) \<and>
   json_diff (state scenario_server1)
       (JObject [(''__syncer_data_version'', JInt 2), (''a'', JInt 2)]) =
     JArray [op_replace ''/__syncer_data_version'' (JInt (sint (ver scenario_server1 + 1)))]"
proof -
  have s0: "scenario_server0 = updates to_json_a json_dump publish_ok scenario_server0 []"
    by (simp add: updates_def)
  have s1: "scenario_server1 = updates to_json_a json_dump publish_ok scenario_server0 [2]"
    by (simp add: updates_def scenario_update1)
  have b0: "sint (ver scenario_server0) < 2147483647"
    and b1: "sint (ver scenario_server1) < 2147483647"
    by (simp_all add: scenario_server0_def scenario_server1_def)
  note commit = version_monotonic [OF to_json_a_wf scenario_construct s0 b0 scenario_update1]
  note noop = version_monotonic [OF to_json_a_wf scenario_construct s1 b1 scenario_update2]
  have enc2: "to_json_a 2 = Inr (JObject [(''a'', JInt 2)])"
    by (simp add: to_json_a_def)
  have assign: "json_assign (JObject [(''a'', JInt 2)]) VERSION_KEY
      (JInt (sint (ver scenario_server1 + 1))) =
     Inr (JObject [(''__syncer_data_version'', JInt 2), (''a'', JInt 2)])"
    by (simp add: VERSION_KEY_def scenario_server1_def)
  have diff: "json_diff (state scenario_server1)
       (JObject [(''__syncer_data_version'', JInt 2), (''a'', JInt 2)]) =
     JArray [op_replace ''/__syncer_data_version'' (JInt (sint (ver scenario_server1 + 1)))]"
    by (simp add: json_diff_def diff_ops.simps scenario_server1_def scenario_state1_def
        escape_def)
  have vers: "sint (ver scenario_server0) = 0" "sint (ver scenario_server1) = 1"
    by (simp_all add: scenario_server0_def scenario_server1_def)
  have doms: "domain_members (JObject [(''a'', JInt 2)]) \<noteq> domain_members (state scenario_server0)"
    "domain_members (JObject [(''a'', JInt 2)]) = domain_members (state scenario_server1)"
    by (simp_all add: domain_members_def VERSION_KEY_def scenario_server0_def
        scenario_server1_def scenario_state0_def scenario_state1_def)
  from commit noop to_json_a_wf scenario_construct b0 b1 s0 s1 scenario_update1
    scenario_update2 enc2 assign diff vers doms
  show ?thesis by blast
qed

subsection \<open>The reserved key\<close>

lemma to_json_doc_wf: "\<forall>d j. to_json_doc d = Inr j \<longrightarrow> wf_json j"
  by (auto simp: to_json_doc_def split: if_splits)

lemma doc_construct: "Server to_json_doc json_dump publish_ok doc_mine = Inr scenario_server0"
  by (simp add: Server_def to_json_doc_def doc_mine_def VERSION_KEY_def scenario_server0_def
      scenario_state0_def publish_ok_def)

lemma doc_update_mine:
  "Update to_json_doc json_dump publish_ok scenario_server0 doc_mine = (None, scenario_server0)"
  by (simp add: Update_def to_json_doc_def doc_mine_def VERSION_KEY_def scenario_server0_def
      scenario_state0_def json_diff_def diff_ops.simps escape_def op_replace_def)

text \<open>
  C10. Whatever the encoding of the data holds under the reserved key, the constructor
  stores the version 0 there and \<^verbatim>\<open>Update\<close> the counter, the other members kept.
  So for two data values whose encodings are objects that differ at most at the
  reserved key, after the first is taken (by the constructor, or by an \<^verbatim>\<open>Update\<close> on
  a server reached from construction) an \<^verbatim>\<open>Update\<close> with the second changes nothing
  and publishes nothing: the diff it computes is the single replace of the version
  member.
\<close>

theorem reserved_key_overwritten:
  assumes enc: "\<forall>d j. to_json d = Inr j \<longrightarrow> wf_json j"
    and ctor: "Server to_json dump publish data0 = Inr s0"
    and s: "s = updates to_json dump publish s0 ds"
    and j1: "to_json d1 = Inr (JObject m1)" and j2: "to_json d2 = Inr (JObject m2)"
    and same: "domain_members (JObject m1) = domain_members (JObject m2)"
    and c1: "Server to_json dump publish d1 = Inr c1"
    and s1: "s1 = snd (Update to_json dump publish s d1)"
  shows "map_of (json_members (state c1)) VERSION_KEY = Some (JInt 0) \<and>
         domain_members (state c1) = domain_members (JObject m1) \<and>
         Update to_json dump publish c1 d2 = (None, c1) \<and>
         map_of (json_members (state s1)) VERSION_KEY = Some (JInt (sint (ver s1))) \<and>
         domain_members (state s1) = domain_members (JObject m1) \<and>
         Update to_json dump publish s1 d2 = (None, s1) \<and>
         (\<forall>next. json_assign (JObject m2) VERSION_KEY (JInt (sint (ver s1 + 1))) = Inr next \<longrightarrow>
            json_diff (state s1) next =
              JArray [op_replace ''/__syncer_data_version'' (JInt (sint (ver s1 + 1)))])"
proof -
  from enc j1 j2 have wf: "wf_json (JObject m1)" "wf_json (JObject m2)" by blast+
  have inv_c1: "stored_inv c1" using enc c1 by (rule Server_stored_inv)
  from c1 j1 have st: "json_assign (JObject m1) VERSION_KEY (JInt 0) = Inr (state c1)"
    by (auto simp: Server_Inr)
  from json_assign_Inr(3) [OF st wf(1)]
  have dom_c1: "domain_members (state c1) = domain_members (JObject m1)"
    by (simp add: domain_members_def)
  with same have "domain_members (JObject m2) = domain_members (state c1)" by simp
  with inv_c1 j2 wf(2) have noop_c1: "Update to_json dump publish c1 d2 = (None, c1)"
    by (rule Update_noop)
  have inv_s: "stored_inv s"
    unfolding s by (rule updates_stored_inv [OF enc Server_stored_inv [OF enc ctor]])
  then have inv_s1: "stored_inv s1"
    unfolding s1 by (rule Update_stored_inv [OF enc])
  have dom_s1: "domain_members (state s1) = domain_members (JObject m1)"
    unfolding s1 using inv_s j1 wf(1) by (rule Update_domain)
  with same have eq: "domain_members (JObject m2) = domain_members (state s1)" by simp
  with inv_s1 j2 wf(2) have noop_s1: "Update to_json dump publish s1 d2 = (None, s1)"
    by (rule Update_noop)
  from Update_diff(2) [OF inv_s1 wf(2) _ eq]
  have "\<forall>next. json_assign (JObject m2) VERSION_KEY (JInt (sint (ver s1 + 1))) = Inr next \<longrightarrow>
            json_diff (state s1) next =
              JArray [op_replace ''/__syncer_data_version'' (JInt (sint (ver s1 + 1)))]"
    by blast
  with json_assign_members [OF st] dom_c1 noop_c1 inv_s1 dom_s1 noop_s1 show ?thesis
    by (simp add: stored_inv_def)
qed

theorem reserved_key_overwritten_witness:
  "Server to_json_doc json_dump publish_ok doc_mine = Inr scenario_server0 \<and>
   scenario_server0 = updates to_json_doc json_dump publish_ok scenario_server0 [] \<and>
   to_json_doc doc_mine =
     Inr (JObject [(''__syncer_data_version'', JString ''mine''), (''a'', JInt 1)]) \<and>
   to_json_doc doc_seven =
     Inr (JObject [(''__syncer_data_version'', JInt 7), (''a'', JInt 1)]) \<and>
   domain_members (JObject [(''__syncer_data_version'', JString ''mine''), (''a'', JInt 1)]) =
     domain_members (JObject [(''__syncer_data_version'', JInt 7), (''a'', JInt 1)]) \<and>
   scenario_server0 = snd (Update to_json_doc json_dump publish_ok scenario_server0 doc_mine) \<and>
   state scenario_server0 = JObject [(''__syncer_data_version'', JInt 0), (''a'', JInt 1)] \<and>
   Update to_json_doc json_dump publish_ok scenario_server0 doc_seven = (None, scenario_server0) \<and>
   json_assign (JObject [(''__syncer_data_version'', JInt 7), (''a'', JInt 1)]) VERSION_KEY
       (JInt (sint (ver scenario_server0 + 1))) =
     Inr (JObject [(''__syncer_data_version'', JInt 1), (''a'', JInt 1)]) \<and>
   json_diff (state scenario_server0)
       (JObject [(''__syncer_data_version'', JInt 1), (''a'', JInt 1)]) =
     JArray [op_replace ''/__syncer_data_version'' (JInt 1)]"
proof -
  have s: "scenario_server0 = updates to_json_doc json_dump publish_ok scenario_server0 []"
    by (simp add: updates_def)
  have j1: "to_json_doc doc_mine =
     Inr (JObject [(''__syncer_data_version'', JString ''mine''), (''a'', JInt 1)])"
    and j2: "to_json_doc doc_seven =
     Inr (JObject [(''__syncer_data_version'', JInt 7), (''a'', JInt 1)])"
    by (simp_all add: to_json_doc_def doc_mine_def doc_seven_def)
  have same: "domain_members (JObject [(''__syncer_data_version'', JString ''mine''), (''a'', JInt 1)]) =
     domain_members (JObject [(''__syncer_data_version'', JInt 7), (''a'', JInt 1)])"
    by (simp add: domain_members_def VERSION_KEY_def)
  have s1: "scenario_server0 = snd (Update to_json_doc json_dump publish_ok scenario_server0 doc_mine)"
    by (simp add: doc_update_mine)
  have st: "state scenario_server0 = JObject [(''__syncer_data_version'', JInt 0), (''a'', JInt 1)]"
    by (simp add: scenario_server0_def scenario_state0_def)
  have assign: "json_assign (JObject [(''__syncer_data_version'', JInt 7), (''a'', JInt 1)])
       VERSION_KEY (JInt (sint (ver scenario_server0 + 1))) =
     Inr (JObject [(''__syncer_data_version'', JInt 1), (''a'', JInt 1)])"
    by (simp add: VERSION_KEY_def scenario_server0_def)
  have one: "sint (ver scenario_server0 + 1) = 1"
    by (simp add: scenario_server0_def)
  note inst = reserved_key_overwritten [OF to_json_doc_wf doc_construct s j1 j2 same
      doc_construct s1]
  from inst assign one
  have "json_diff (state scenario_server0)
       (JObject [(''__syncer_data_version'', JInt 1), (''a'', JInt 1)]) =
     JArray [op_replace ''/__syncer_data_version'' (JInt 1)]"
    by simp
  with inst to_json_doc_wf doc_construct s j1 j2 same s1 st assign show ?thesis
    by blast
qed

section \<open>Convergence: a diff applied to its source\<close>

subsection \<open>Pointer paths and indices\<close>

lemma unescape_escape: "unescape (escape k) = Some k"
  by (induction k) (auto simp: escape_def)

lemma escape_no_slash: "CHR ''/'' \<notin> set (escape k)"
  by (auto simp: escape_def)

lemma split_slash_no_slash: "CHR ''/'' \<notin> set e \<Longrightarrow> split_slash e = [e]"
  by (induction e) auto

lemma split_slash_nonempty: "split_slash s \<noteq> []"
  by (induction s) (auto split: list.splits)

lemma split_slash_snoc:
  "CHR ''/'' \<notin> set e \<Longrightarrow> split_slash (s @ CHR ''/'' # e) = split_slash s @ [e]"
  by (induction s) (auto simp: split_slash_no_slash split_slash_nonempty split: list.splits)

lemma those_snoc:
  "those (xs @ [y]) = (case those xs of None \<Rightarrow> None | Some a \<Rightarrow> map_option (\<lambda>b. a @ [b]) y)"
  by (induction xs) (auto simp: option.map_comp o_def split: option.splits)

lemma parse_pointer_snoc:
  assumes "parse_pointer p = Some ts"
  shows "parse_pointer (p @ ''/'' @ escape k) = Some (ts @ [k])"
proof (cases p)
  case Nil
  with assms show ?thesis
    by (simp add: parse_pointer_def split_slash_no_slash escape_no_slash unescape_escape)
next
  case (Cons c s)
  with assms have c: "c = CHR ''/''" and ts: "those (map unescape (split_slash s)) = Some ts"
    by (auto simp: parse_pointer_def split: if_splits)
  from Cons c have "parse_pointer (p @ ''/'' @ escape k) =
      those (map unescape (split_slash (s @ ''/'' @ escape k)))"
    by (simp add: parse_pointer_def)
  also have "\<dots> = those (map unescape (split_slash s) @ [unescape (escape k)])"
    by (simp add: split_slash_snoc escape_no_slash)
  also have "\<dots> = Some (ts @ [k])"
    by (simp only: those_snoc ts unescape_escape) simp
  finally show ?thesis .
qed

lemma to_string_digits_all: "to_string n \<noteq> [] \<and> list_all is_digit (to_string n)"
proof (induction n rule: to_string.induct)
  case (1 n)
  show ?case
  proof (cases "n < 10")
    case True
    then have "to_string n = [char_of (48 + n)]" by (simp add: to_string.simps)
    moreover from True have "(of_char (char_of (48 + n) :: char) :: nat) = 48 + n" by simp
    ultimately show ?thesis using True by (simp add: is_digit_def)
  next
    case False
    then have "to_string n = to_string (n div 10) @ [char_of (48 + n mod 10)]"
      by (subst to_string.simps) simp
    moreover have "(of_char (char_of (48 + n mod 10) :: char) :: nat) = 48 + n mod 10" by simp
    ultimately show ?thesis using 1 False by (simp add: is_digit_def)
  qed
qed

lemma parse_index_to_string: "parse_index (to_string n) = Some n"
proof -
  have "foldl (\<lambda>n c. 10 * n + (of_char c - 48)) 0 (to_string n) = n"
  proof (induction n rule: to_string.induct)
    case (1 n)
    show ?case
    proof (cases "n < 10")
      case True
      then have "to_string n = [char_of (48 + n)]" by (simp add: to_string.simps)
      moreover from True have "(of_char (char_of (48 + n) :: char) :: nat) = 48 + n" by simp
      ultimately show ?thesis using True by simp
    next
      case False
      then have "to_string n = to_string (n div 10) @ [char_of (48 + n mod 10)]"
        by (subst to_string.simps) simp
      moreover have "(of_char (char_of (48 + n mod 10) :: char) :: nat) = 48 + n mod 10" by simp
      ultimately show ?thesis using 1 False by simp
    qed
  qed
  with to_string_digits_all [of n] show ?thesis by (simp add: parse_index_def)
qed

lemma escape_digits: "list_all is_digit s \<Longrightarrow> escape s = s"
  by (induction s) (auto simp: escape_def is_digit_def)

lemma escape_to_string: "escape (to_string n) = to_string n"
  by (simp add: escape_digits to_string_digits_all)


lemma map_assign_lookup: "map_of (map_assign k v kvs) k = Some v"
  by (induction kvs) auto

lemma map_assign_lookup_other: "k' \<noteq> k \<Longrightarrow> map_of (map_assign k v kvs) k' = map_of kvs k'"
  by (induction kvs) auto

lemma member_update_lookup:
  "map_of kvs k \<noteq> None \<Longrightarrow> map_of (member_update k v kvs) k = Some v"
  by (induction kvs) auto

lemma member_update_lookup_other:
  "k' \<noteq> k \<Longrightarrow> map_of (member_update k v kvs) k' = map_of kvs k'"
  by (induction kvs) auto

lemma member_update_twice: "member_update k v' (member_update k v kvs) = member_update k v' kvs"
  by (induction kvs) auto

lemma member_update_same: "map_of kvs k = Some v \<Longrightarrow> member_update k v kvs = kvs"
  by (induction kvs) (auto split: if_splits)

lemma member_update_keys: "map fst (member_update k v kvs) = map fst kvs"
  by (induction kvs) auto

lemma json_at_append:
  "json_at (ts @ us) doc = (case json_at ts doc of None \<Rightarrow> None | Some d \<Rightarrow> json_at us d)"
  by (induction ts arbitrary: doc) (auto split: json.splits option.splits)

lemma at_path_append: "at_path (ts @ us) f doc = at_path ts (at_path us f) doc"
  by (induction ts arbitrary: doc) (auto split: json.splits option.splits sum.splits)

lemma at_path_cong:
  "json_at ts doc = Some a \<Longrightarrow> f a = g a \<Longrightarrow> at_path ts f doc = at_path ts g doc"
proof (induction ts arbitrary: doc)
  case Nil
  then show ?case by simp
next
  case (Cons t ts)
  show ?case
  proof (cases doc)
    case (JArray xs)
    with Cons.prems(1) obtain i where "parse_index t = Some i" "i < length xs"
      "json_at ts (xs ! i) = Some a"
      by (auto split: option.splits if_splits)
    with Cons.IH [of "xs ! i"] Cons.prems(2) JArray show ?thesis by simp
  next
    case (JObject kvs)
    with Cons.prems(1) obtain c where "map_of kvs t = Some c" "json_at ts c = Some a"
      by (auto split: option.splits)
    with Cons.IH [of c] Cons.prems(2) JObject show ?thesis by simp
  qed (use Cons.prems in simp_all)
qed

lemma at_path_put:
  "json_at ts doc = Some a \<Longrightarrow>
   \<exists>doc'. at_path ts (\<lambda>old. Inr b) doc = Inr doc' \<and> json_at ts doc' = Some b \<and>
          (\<forall>c. at_path ts (\<lambda>old. Inr c) doc' = at_path ts (\<lambda>old. Inr c) doc)"
proof (induction ts arbitrary: doc)
  case Nil
  then show ?case by simp
next
  case (Cons t ts)
  show ?case
  proof (cases doc)
    case (JArray xs)
    with Cons.prems(1) obtain i where i: "parse_index t = Some i" "i < length xs"
      "json_at ts (xs ! i) = Some a"
      by (auto split: option.splits if_splits)
    from Cons.IH [OF i(3)] obtain c' where c': "at_path ts (\<lambda>old. Inr b) (xs ! i) = Inr c'"
      "json_at ts c' = Some b"
      "\<forall>c. at_path ts (\<lambda>old. Inr c) c' = at_path ts (\<lambda>old. Inr c) (xs ! i)"
      by blast
    with i JArray have "at_path (t # ts) (\<lambda>old. Inr b) doc = Inr (JArray (xs[i := c'])) \<and>
        json_at (t # ts) (JArray (xs[i := c'])) = Some b \<and>
        (\<forall>c. at_path (t # ts) (\<lambda>old. Inr c) (JArray (xs[i := c'])) =
              at_path (t # ts) (\<lambda>old. Inr c) doc)"
      by (auto split: sum.splits)
    then show ?thesis by blast
  next
    case (JObject kvs)
    with Cons.prems(1) obtain ch where ch: "map_of kvs t = Some ch" "json_at ts ch = Some a"
      by (auto split: option.splits)
    from Cons.IH [OF ch(2)] obtain c' where c': "at_path ts (\<lambda>old. Inr b) ch = Inr c'"
      "json_at ts c' = Some b"
      "\<forall>c. at_path ts (\<lambda>old. Inr c) c' = at_path ts (\<lambda>old. Inr c) ch"
      by blast
    with ch JObject have "at_path (t # ts) (\<lambda>old. Inr b) doc = Inr (JObject (member_update t c' kvs)) \<and>
        json_at (t # ts) (JObject (member_update t c' kvs)) = Some b \<and>
        (\<forall>c. at_path (t # ts) (\<lambda>old. Inr c) (JObject (member_update t c' kvs)) =
              at_path (t # ts) (\<lambda>old. Inr c) doc)"
      by (auto simp: member_update_lookup member_update_twice split: sum.splits)
    then show ?thesis by blast
  qed (use Cons.prems in simp_all)
qed

lemma apply_ops_append:
  "apply_ops (ops1 @ ops2) doc =
     (case apply_ops ops1 doc of Inl e \<Rightarrow> Inl e | Inr d \<Rightarrow> apply_ops ops2 d)"
  by (induction ops1 arbitrary: doc) (auto split: sum.splits)

lemma apply_ops_seq:
  assumes at: "json_at ts doc = Some a"
    and first: "apply_ops ops1 doc = at_path ts (\<lambda>old. Inr b) doc"
    and second: "\<And>doc'. json_at ts doc' = Some b \<Longrightarrow>
                  apply_ops ops2 doc' = at_path ts (\<lambda>old. Inr c) doc'"
  shows "apply_ops (ops1 @ ops2) doc = at_path ts (\<lambda>old. Inr c) doc"
proof -
  from at_path_put [OF at, of b] obtain doc' where
    doc': "at_path ts (\<lambda>old. Inr b) doc = Inr doc'" "json_at ts doc' = Some b"
      "\<forall>c. at_path ts (\<lambda>old. Inr c) doc' = at_path ts (\<lambda>old. Inr c) doc"
    by blast
  with first have "apply_ops (ops1 @ ops2) doc = apply_ops ops2 doc'"
    by (simp add: apply_ops_append)
  also from second doc'(2) have "\<dots> = at_path ts (\<lambda>old. Inr c) doc'" .
  also from doc'(3) have "\<dots> = at_path ts (\<lambda>old. Inr c) doc" by blast
  finally show ?thesis .
qed

lemma apply_op_replace:
  "parse_pointer p = Some ts \<Longrightarrow>
   apply_op (op_replace p v) doc = at_path ts (\<lambda>old. Inr v) doc"
  by (simp add: apply_op_def op_replace_def patch_replace_def)

lemma apply_op_add:
  "parse_pointer p = Some ts \<Longrightarrow>
   apply_op (op_add (p @ ''/'' @ escape k) v) doc = at_path ts (add_child k v) doc"
  using parse_pointer_snoc [of p ts k]
  by (simp add: apply_op_def op_add_def patch_add_def)

lemma apply_op_remove:
  "parse_pointer p = Some ts \<Longrightarrow>
   apply_op (op_remove (p @ ''/'' @ escape k)) doc = at_path ts (remove_child k) doc"
  using parse_pointer_snoc [of p ts k]
  by (simp add: apply_op_def op_remove_def patch_remove_def)

lemma apply_ops_child:
  assumes child: "\<And>doc. json_at (ts @ [t]) doc = Some v \<Longrightarrow>
                   apply_ops ops doc = at_path (ts @ [t]) (\<lambda>old. Inr v') doc"
    and at: "json_at ts doc = Some parent"
    and sub: "json_at [t] parent = Some v"
    and put: "at_path [t] (\<lambda>old. Inr v') parent = Inr parent'"
  shows "apply_ops ops doc = at_path ts (\<lambda>old. Inr parent') doc"
proof -
  from at sub have "json_at (ts @ [t]) doc = Some v"
    by (simp add: json_at_append)
  then have "apply_ops ops doc = at_path (ts @ [t]) (\<lambda>old. Inr v') doc"
    by (rule child)
  also have "\<dots> = at_path ts (at_path [t] (\<lambda>old. Inr v')) doc"
    by (rule at_path_append)
  also from at put have "\<dots> = at_path ts (\<lambda>old. Inr parent') doc"
    by (intro at_path_cong) simp_all
  finally show ?thesis .
qed


lemma at_path_same: "json_at ts doc = Some a \<Longrightarrow> at_path ts (\<lambda>old. Inr a) doc = Inr doc"
proof (induction ts arbitrary: doc)
  case Nil
  then show ?case by simp
next
  case (Cons t ts)
  show ?case
  proof (cases doc)
    case (JArray xs)
    with Cons.prems(1) obtain i where "parse_index t = Some i" "i < length xs"
      "json_at ts (xs ! i) = Some a"
      by (auto split: option.splits if_splits)
    with Cons.IH [of "xs ! i"] JArray show ?thesis by simp
  next
    case (JObject kvs)
    with Cons.prems(1) obtain c where "map_of kvs t = Some c" "json_at ts c = Some a"
      by (auto split: option.splits)
    with Cons.IH [of c] JObject show ?thesis by (simp add: member_update_same)
  qed (use Cons.prems in simp_all)
qed

lemma apply_ops_single: "apply_ops [op] doc = apply_op op doc"
  by (simp split: sum.splits)

lemma apply_op_add_index:
  "parse_pointer p = Some ts \<Longrightarrow>
   apply_ops [op_add (p @ ''/'' @ to_string i) v] doc = at_path ts (add_child (to_string i) v) doc"
  using apply_op_add [of p ts "to_string i" v doc]
  by (simp only: apply_ops_single escape_to_string)

lemma apply_op_remove_index:
  "parse_pointer p = Some ts \<Longrightarrow>
   apply_ops [op_remove (p @ ''/'' @ to_string i)] doc =
     at_path ts (remove_child (to_string i)) doc"
  using apply_op_remove [of p ts "to_string i" doc]
  by (simp only: apply_ops_single escape_to_string)

lemma parse_pointer_index:
  "parse_pointer p = Some ts \<Longrightarrow> parse_pointer (p @ ''/'' @ to_string i) = Some (ts @ [to_string i])"
  using parse_pointer_snoc [of p ts "to_string i"] by (simp add: escape_to_string)

lemma to_string_not_dash: "to_string i \<noteq> ''-''"
  using to_string_digits_all [of i] by (auto simp: is_digit_def)

lemma remove_loop:
  assumes p: "parse_pointer p = Some ts"
  shows "n \<le> length zs \<Longrightarrow> json_at ts doc = Some (JArray zs) \<Longrightarrow>
         apply_ops (rev (map (\<lambda>i. op_remove (p @ ''/'' @ to_string i)) [n..<length zs])) doc =
           at_path ts (\<lambda>old. Inr (JArray (take n zs))) doc"
proof (induction zs arbitrary: doc rule: rev_induct)
  case Nil
  then show ?case by (simp add: at_path_same)
next
  case (snoc z zs)
  show ?case
  proof (cases "n = Suc (length zs)")
    case True
    with snoc.prems show ?thesis by (simp add: at_path_same)
  next
    case False
    with snoc.prems(1) have n: "n \<le> length zs" by simp
    have first: "apply_ops [op_remove (p @ ''/'' @ to_string (length zs))] doc =
        at_path ts (\<lambda>old. Inr (JArray zs)) doc"
    proof -
      have "apply_ops [op_remove (p @ ''/'' @ to_string (length zs))] doc =
          at_path ts (remove_child (to_string (length zs))) doc"
        by (rule apply_op_remove_index [OF p])
      also have "\<dots> = at_path ts (\<lambda>old. Inr (JArray zs)) doc"
        using snoc.prems(2)
        by (rule at_path_cong) (simp add: remove_child_def parse_index_to_string)
      finally show ?thesis .
    qed
    have "apply_ops ([op_remove (p @ ''/'' @ to_string (length zs))] @
            rev (map (\<lambda>i. op_remove (p @ ''/'' @ to_string i)) [n..<length zs])) doc =
          at_path ts (\<lambda>old. Inr (JArray (take n zs))) doc"
      using snoc.prems(2) first
    proof (rule apply_ops_seq)
      fix doc' assume "json_at ts doc' = Some (JArray zs)"
      with n show "apply_ops (rev (map (\<lambda>i. op_remove (p @ ''/'' @ to_string i)) [n..<length zs])) doc' =
          at_path ts (\<lambda>old. Inr (JArray (take n zs))) doc'"
        by (rule snoc.IH)
    qed
    with n show ?thesis by simp
  qed
qed

lemma add_loop:
  assumes p: "parse_pointer p = Some ts"
  shows "n \<le> length ys \<Longrightarrow> json_at ts doc = Some (JArray (take n ys)) \<Longrightarrow>
         apply_ops (map (\<lambda>i. op_add (p @ ''/'' @ to_string i) (ys ! i)) [n..<length ys]) doc =
           at_path ts (\<lambda>old. Inr (JArray ys)) doc"
proof (induction "length ys - n" arbitrary: n doc)
  case 0
  then show ?case by (simp add: at_path_same)
next
  case (Suc d)
  then have n: "n < length ys" by simp
  have first: "apply_ops [op_add (p @ ''/'' @ to_string n) (ys ! n)] doc =
      at_path ts (\<lambda>old. Inr (JArray (take (Suc n) ys))) doc"
  proof -
    have "apply_ops [op_add (p @ ''/'' @ to_string n) (ys ! n)] doc =
        at_path ts (add_child (to_string n) (ys ! n)) doc"
      by (rule apply_op_add_index [OF p])
    also have "\<dots> = at_path ts (\<lambda>old. Inr (JArray (take (Suc n) ys))) doc"
      using Suc.prems(2)
    proof (rule at_path_cong)
      from n show "add_child (to_string n) (ys ! n) (JArray (take n ys)) =
          Inr (JArray (take (Suc n) ys))"
        by (simp add: add_child_def parse_index_to_string to_string_not_dash
            take_Suc_conv_app_nth)
    qed
    finally show ?thesis .
  qed
  have all: "apply_ops ([op_add (p @ ''/'' @ to_string n) (ys ! n)] @
          map (\<lambda>i. op_add (p @ ''/'' @ to_string i) (ys ! i)) [Suc n..<length ys]) doc =
        at_path ts (\<lambda>old. Inr (JArray ys)) doc"
    using Suc.prems(2) first
  proof (rule apply_ops_seq)
    fix doc' assume at: "json_at ts doc' = Some (JArray (take (Suc n) ys))"
    from Suc.hyps(2) have "d = length ys - Suc n" by simp
    moreover from n have "Suc n \<le> length ys" by simp
    ultimately show "apply_ops (map (\<lambda>i. op_add (p @ ''/'' @ to_string i) (ys ! i)) [Suc n..<length ys]) doc' =
        at_path ts (\<lambda>old. Inr (JArray ys)) doc'"
      using at by (rule Suc.hyps(1))
  qed
  show ?case
    unfolding upt_conv_Cons [OF n] list.map using all by (simp only: append_Cons append_Nil)
qed

lemma map_of_filter_key:
  "map_of (filter (\<lambda>e. fst e \<noteq> k) kvs) k' = (if k' = k then None else map_of kvs k')"
  by (induction kvs) auto

lemma patched_sorted:
  "sorted_wrt (<) (map fst cur) \<Longrightarrow> sorted_wrt (<) (map fst (patched rest ys cur))"
  by (induction rest arbitrary: cur)
    (auto simp: member_update_keys sorted_keys_filter split: option.splits)

lemma patched_lookup:
  "distinct (map fst rest) \<Longrightarrow> \<forall>kv\<in>set rest. map_of cur (fst kv) \<noteq> None \<Longrightarrow>
   map_of (patched rest ys cur) k = (if k \<in> fst ` set rest then map_of ys k else map_of cur k)"
proof (induction rest arbitrary: cur)
  case Nil
  then show ?case by simp
next
  case (Cons kv rest)
  let ?cur = "case map_of ys (fst kv) of
          Some v' \<Rightarrow> member_update (fst kv) v' cur
        | None \<Rightarrow> filter (\<lambda>e. fst e \<noteq> fst kv) cur"
  from Cons.prems have present: "map_of cur (fst kv) \<noteq> None"
    and fresh: "fst kv \<notin> fst ` set rest" and d: "distinct (map fst rest)" by auto
  have other: "map_of ?cur k' = map_of cur k'" if "k' \<noteq> fst kv" for k'
    using that by (simp add: member_update_lookup_other map_of_filter_key split: option.splits)
  have here: "map_of ?cur (fst kv) = map_of ys (fst kv)"
    using present by (simp add: member_update_lookup map_of_filter_key split: option.splits)
  from Cons.prems(2) fresh have "\<forall>kv'\<in>set rest. map_of ?cur (fst kv') \<noteq> None"
    by (metis image_eqI list.set_intros(2) other)
  from Cons.IH [OF d this]
  have "map_of (patched (kv # rest) ys cur) k =
      (if k \<in> fst ` set rest then map_of ys k else map_of ?cur k)"
    by simp
  with other [of k] here fresh show ?case by auto
qed

lemma set_members_loop:
  assumes p: "parse_pointer p = Some ts"
  shows "json_at ts doc = Some (JObject cur) \<Longrightarrow>
         apply_ops (map (\<lambda>kv. op_add (p @ ''/'' @ escape (fst kv)) (snd kv)) adds) doc =
           at_path ts (\<lambda>old. Inr (JObject (fold (\<lambda>kv. map_assign (fst kv) (snd kv)) adds cur))) doc"
proof (induction adds arbitrary: cur doc)
  case Nil
  then show ?case by (simp add: at_path_same)
next
  case (Cons kv adds)
  have first: "apply_ops [op_add (p @ ''/'' @ escape (fst kv)) (snd kv)] doc =
      at_path ts (\<lambda>old. Inr (JObject (map_assign (fst kv) (snd kv) cur))) doc"
  proof -
    have "apply_ops [op_add (p @ ''/'' @ escape (fst kv)) (snd kv)] doc =
        at_path ts (add_child (fst kv) (snd kv)) doc"
      by (simp only: apply_ops_single apply_op_add [OF p])
    also have "\<dots> = at_path ts (\<lambda>old. Inr (JObject (map_assign (fst kv) (snd kv) cur))) doc"
      using Cons.prems by (rule at_path_cong) (simp add: add_child_def)
    finally show ?thesis .
  qed
  have "apply_ops ([op_add (p @ ''/'' @ escape (fst kv)) (snd kv)] @
          map (\<lambda>kv. op_add (p @ ''/'' @ escape (fst kv)) (snd kv)) adds) doc =
        at_path ts (\<lambda>old. Inr (JObject
          (fold (\<lambda>kv. map_assign (fst kv) (snd kv)) adds (map_assign (fst kv) (snd kv) cur)))) doc"
    using Cons.prems first by (rule apply_ops_seq) (rule Cons.IH)
  then show ?case by simp
qed

lemma fold_assign_sorted:
  "sorted_wrt (<) (map fst cur) \<Longrightarrow>
   sorted_wrt (<) (map fst (fold (\<lambda>kv. map_assign (fst kv) (snd kv)) adds cur))"
  by (induction adds arbitrary: cur) (simp_all add: map_assign_sorted)

lemma fold_assign_lookup:
  "distinct (map fst adds) \<Longrightarrow>
   map_of (fold (\<lambda>kv. map_assign (fst kv) (snd kv)) adds cur) k =
     (if k \<in> fst ` set adds then map_of adds k else map_of cur k)"
proof (induction adds arbitrary: cur)
  case Nil
  then show ?case by simp
next
  case (Cons kv adds)
  then have "fst kv \<notin> fst ` set adds" "distinct (map fst adds)" by auto
  with Cons.IH [of "map_assign (fst kv) (snd kv) cur"] show ?case
    by (cases "k = fst kv") (auto simp: map_assign_lookup map_assign_lookup_other)
qed

lemma sorted_map_of_eqI:
  assumes "sorted_wrt (<) (map fst (xs :: (string \<times> json) list))"
    and "sorted_wrt (<) (map fst ys)" and "\<forall>k. map_of xs k = map_of ys k"
  shows "xs = ys"
  using assms(1,2)
proof (rule sorted_alist_eqI)
  from assms(1) have d: "distinct (map fst xs)" by (simp add: strict_sorted_iff)
  from assms(2) have d': "distinct (map fst ys)" by (simp add: strict_sorted_iff)
  show "\<forall>kv\<in>set xs. map_of ys (fst kv) = Some (snd kv)"
    using d assms(3) by (metis map_of_eq_Some_iff prod.collapse)
  show "\<forall>kv\<in>set ys. map_of xs (fst kv) \<noteq> None"
    using d' assms(3) by (metis map_of_eq_Some_iff option.distinct(1) prod.collapse)
qed


lemma members_patched_complete:
  assumes sx: "sorted_wrt (<) (map fst xs)" and sy: "sorted_wrt (<) (map fst ys)"
  shows "fold (\<lambda>kv. map_assign (fst kv) (snd kv))
           (filter (\<lambda>kv. map_of xs (fst kv) = None) ys) (patched xs ys xs) = ys"
    (is "?fin = ys")
proof (rule sorted_map_of_eqI)
  let ?adds = "filter (\<lambda>kv. map_of xs (fst kv) = None) ys"
  from sx sy have dx: "distinct (map fst xs)" and dy: "distinct (map fst ys)"
    by (simp_all add: strict_sorted_iff)
  show "sorted_wrt (<) (map fst ?fin)"
    by (intro fold_assign_sorted patched_sorted sx)
  show "sorted_wrt (<) (map fst ys)" by (rule sy)
  from dy have da: "distinct (map fst ?adds)" by (rule distinct_map_filter)
  from dx have present: "\<forall>kv\<in>set xs. map_of xs (fst kv) \<noteq> None"
    by (auto simp: map_of_eq_None_iff)
  show "\<forall>k. map_of ?fin k = map_of ys k"
  proof
    fix k
    have fin: "map_of ?fin k =
        (if k \<in> fst ` set ?adds then map_of ?adds k
         else if k \<in> fst ` set xs then map_of ys k else map_of xs k)"
      by (simp add: fold_assign_lookup [OF da] patched_lookup [OF dx present])
    show "map_of ?fin k = map_of ys k"
    proof (cases "k \<in> fst ` set ?adds")
      case True
      then obtain v where v: "(k, v) \<in> set ys" "map_of xs k = None" by auto
      with dy have "map_of ys k = Some v" by simp
      moreover from v da have "map_of ?adds k = Some v" by simp
      ultimately show ?thesis using True fin by simp
    next
      case False
      show ?thesis
      proof (cases "k \<in> fst ` set xs")
        case True
        with False fin show ?thesis by simp
      next
        case no: False
        then have none: "map_of xs k = None" by (simp add: map_of_eq_None_iff)
        have "map_of ys k = None"
        proof (rule ccontr)
          assume "map_of ys k \<noteq> None"
          then obtain v where "map_of ys k = Some v" by blast
          then have "(k, v) \<in> set ys" by (rule map_of_SomeD)
          with none have "(k, v) \<in> set ?adds" by simp
          then have "k \<in> fst ` set ?adds" by force
          with False show False by simp
        qed
        with False no none fin show ?thesis by simp
      qed
    qed
  qed
qed

lemma patch_diff:
  "wf_json a \<Longrightarrow> wf_json b \<Longrightarrow> parse_pointer p = Some ts \<Longrightarrow> json_at ts doc = Some a \<Longrightarrow>
     apply_ops (diff_ops a b p) doc = at_path ts (\<lambda>old. Inr b) doc"
  "wf_elems xs \<Longrightarrow> wf_elems ys \<Longrightarrow> parse_pointer p = Some ts \<Longrightarrow> length pre = i \<Longrightarrow>
   json_at ts doc = Some (JArray (pre @ xs)) \<Longrightarrow>
     apply_ops (diff_elems xs ys i p) doc =
       at_path ts (\<lambda>old. Inr (JArray (pre @ take (length xs) ys @ drop (length ys) xs))) doc"
  "wf_members rest \<Longrightarrow> wf_members ms \<Longrightarrow> parse_pointer p = Some ts \<Longrightarrow>
   distinct (map fst rest) \<Longrightarrow> \<forall>kv\<in>set rest. map_of cur (fst kv) = Some (snd kv) \<Longrightarrow>
   json_at ts doc = Some (JObject cur) \<Longrightarrow>
     apply_ops (diff_members rest ms p) doc =
       at_path ts (\<lambda>old. Inr (JObject (patched rest ms cur))) doc"
proof (induction a b p and xs ys i p and rest ms p
    arbitrary: ts doc and ts doc pre and ts doc cur
    rule: diff_ops_diff_elems_diff_members.induct)
  case (1 source target path)
  note p = \<open>parse_pointer path = Some ts\<close> and at = \<open>json_at ts doc = Some source\<close>
  show ?case
  proof (cases "source = target")
    case True
    with at show ?thesis by (simp add: diff_ops.simps at_path_same)
  next
    case ne: False
    have replace: "apply_ops [op_replace path target] doc = at_path ts (\<lambda>old. Inr target) doc"
      by (simp only: apply_ops_single apply_op_replace [OF p])
    show ?thesis
    proof (cases source)
      case (JArray xs)
      show ?thesis
      proof (cases target)
        case target: (JArray ys)
        from "1.prems" JArray target have wf: "wf_elems xs" "wf_elems ys" by simp_all
        let ?n = "min (length xs) (length ys)"
        let ?zs = "take (length xs) ys @ drop (length ys) xs"
        let ?removes = "rev (map (\<lambda>i. op_remove (path @ ''/'' @ to_string i)) [?n..<length xs])"
        let ?adds = "map (\<lambda>i. op_add (path @ ''/'' @ to_string i) (ys ! i)) [?n..<length ys]"
        have len: "length ?zs = length xs" by auto
        have tk: "take ?n ?zs = take ?n ys" by (auto simp: min_def)
        from at JArray have at0: "json_at ts doc = Some (JArray ([] @ xs))" by simp
        have elems: "apply_ops (diff_elems xs ys 0 path) doc =
            at_path ts (\<lambda>old. Inr (JArray ?zs)) doc"
          using "1.IH"(1) [OF ne JArray target wf p _ at0] by simp
        have rest: "apply_ops (?removes @ ?adds) doc' = at_path ts (\<lambda>old. Inr (JArray ys)) doc'"
          if at': "json_at ts doc' = Some (JArray ?zs)" for doc'
          using at'
        proof (rule apply_ops_seq)
          have "?n \<le> length ?zs" by (simp add: len)
          from remove_loop [OF p this at'] len tk
          show "apply_ops ?removes doc' = at_path ts (\<lambda>old. Inr (JArray (take ?n ys))) doc'"
            by simp
          fix doc'' assume "json_at ts doc'' = Some (JArray (take ?n ys))"
          with add_loop [OF p, of ?n ys doc'']
          show "apply_ops ?adds doc'' = at_path ts (\<lambda>old. Inr (JArray ys)) doc''"
            by simp
        qed
        from at0 elems rest
        have "apply_ops (diff_elems xs ys 0 path @ ?removes @ ?adds) doc =
            at_path ts (\<lambda>old. Inr (JArray ys)) doc"
          by (rule apply_ops_seq [where a = "JArray ([] @ xs)"])
        with ne JArray target show ?thesis by (simp add: diff_ops.simps)
      qed (use ne JArray replace in \<open>simp_all add: diff_ops.simps\<close>)
    next
      case (JObject xs)
      show ?thesis
      proof (cases target)
        case target: (JObject ys)
        from "1.prems" JObject target have wf: "wf_members xs" "wf_members ys"
          and so: "sorted_wrt (<) (map fst xs)" "sorted_wrt (<) (map fst ys)" by simp_all
        from so have dx: "distinct (map fst xs)" by (simp add: strict_sorted_iff)
        then have self: "\<forall>kv\<in>set xs. map_of xs (fst kv) = Some (snd kv)" by simp
        let ?adds = "filter (\<lambda>kv. map_of xs (fst kv) = None) ys"
        from at JObject have at0: "json_at ts doc = Some (JObject xs)" by simp
        have members: "apply_ops (diff_members xs ys path) doc =
            at_path ts (\<lambda>old. Inr (JObject (patched xs ys xs))) doc"
          using "1.IH"(2) [OF ne JObject target wf p dx self at0] .
        have "apply_ops (diff_members xs ys path @
              map (\<lambda>kv. op_add (path @ ''/'' @ escape (fst kv)) (snd kv)) ?adds) doc =
            at_path ts (\<lambda>old. Inr (JObject
              (fold (\<lambda>kv. map_assign (fst kv) (snd kv)) ?adds (patched xs ys xs)))) doc"
          using at0 members by (rule apply_ops_seq) (rule set_members_loop [OF p])
        then have "apply_ops (diff_members xs ys path @
              map (\<lambda>kv. op_add (path @ ''/'' @ escape (fst kv)) (snd kv)) ?adds) doc =
            at_path ts (\<lambda>old. Inr (JObject ys)) doc"
          by (simp only: members_patched_complete [OF so])
        with ne JObject target show ?thesis
          by (simp add: diff_ops.simps case_prod_unfold)
      qed (use ne JObject replace in \<open>simp_all add: diff_ops.simps\<close>)
    qed (use ne replace in \<open>simp_all add: diff_ops.simps\<close>)
  qed
next
  case (2 ys i path)
  then show ?case by (simp add: at_path_same)
next
  case (3 x xs i path)
  then show ?case by (simp add: at_path_same)
next
  case (4 x xs y ys i path)
  note p = \<open>parse_pointer path = Some ts\<close>
    and at = \<open>json_at ts doc = Some (JArray (pre @ x # xs))\<close>
    and len = \<open>length pre = i\<close>
  from "4.prems" have wf: "wf_json x" "wf_json y" "wf_elems xs" "wf_elems ys" by simp_all
  have p': "parse_pointer (path @ ''/'' @ to_string i) = Some (ts @ [to_string i])"
    using p by (rule parse_pointer_index)
  have first: "apply_ops (diff_ops x y (path @ ''/'' @ to_string i)) doc =
      at_path ts (\<lambda>old. Inr (JArray ((pre @ [y]) @ xs))) doc"
  proof (rule apply_ops_child [where t = "to_string i" and v = x and v' = y])
    show "apply_ops (diff_ops x y (path @ ''/'' @ to_string i)) d =
        at_path (ts @ [to_string i]) (\<lambda>old. Inr y) d"
      if "json_at (ts @ [to_string i]) d = Some x" for d
      using wf(1,2) p' that by (rule "4.IH"(1))
    show "json_at ts doc = Some (JArray (pre @ x # xs))" by (rule at)
    show "json_at [to_string i] (JArray (pre @ x # xs)) = Some x"
      unfolding len [symmetric] by (simp add: parse_index_to_string)
    show "at_path [to_string i] (\<lambda>old. Inr y) (JArray (pre @ x # xs)) =
        Inr (JArray ((pre @ [y]) @ xs))"
      unfolding len [symmetric] by (simp add: parse_index_to_string)
  qed
  have "apply_ops (diff_ops x y (path @ ''/'' @ to_string i) @ diff_elems xs ys (Suc i) path) doc =
      at_path ts (\<lambda>old. Inr (JArray ((pre @ [y]) @ take (length xs) ys @ drop (length ys) xs))) doc"
    using at first
  proof (rule apply_ops_seq)
    fix doc' assume at': "json_at ts doc' = Some (JArray ((pre @ [y]) @ xs))"
    from len have "length (pre @ [y]) = Suc i" by simp
    with wf(3,4) p show "apply_ops (diff_elems xs ys (Suc i) path) doc' =
        at_path ts (\<lambda>old. Inr (JArray ((pre @ [y]) @ take (length xs) ys @ drop (length ys) xs))) doc'"
      using at' by (rule "4.IH"(2))
  qed
  then show ?case by simp
next
  case (5 ms path)
  then show ?case by (simp add: at_path_same)
next
  case (6 kv rest ms path)
  note p = \<open>parse_pointer path = Some ts\<close> and at = \<open>json_at ts doc = Some (JObject cur)\<close>
  from "6.prems" have wf: "wf_json (snd kv)" "wf_members rest" "wf_members ms"
    and d: "distinct (map fst rest)" and fresh: "fst kv \<notin> fst ` set rest"
    and here: "map_of cur (fst kv) = Some (snd kv)"
    and others: "\<forall>kv'\<in>set rest. map_of cur (fst kv') = Some (snd kv')"
    by auto
  have p': "parse_pointer (path @ ''/'' @ escape (fst kv)) = Some (ts @ [fst kv])"
    using p by (rule parse_pointer_snoc)
  let ?cur = "case map_of ms (fst kv) of
          Some v' \<Rightarrow> member_update (fst kv) v' cur
        | None \<Rightarrow> filter (\<lambda>e. fst e \<noteq> fst kv) cur"
  let ?first = "case map_of ms (fst kv) of
        Some v' \<Rightarrow> diff_ops (snd kv) v' (path @ ''/'' @ escape (fst kv))
      | None \<Rightarrow> [op_remove (path @ ''/'' @ escape (fst kv))]"
  have first: "apply_ops ?first doc = at_path ts (\<lambda>old. Inr (JObject ?cur)) doc"
  proof (cases "map_of ms (fst kv)")
    case None
    have "apply_ops [op_remove (path @ ''/'' @ escape (fst kv))] doc =
        at_path ts (remove_child (fst kv)) doc"
      by (simp only: apply_ops_single apply_op_remove [OF p])
    also have "\<dots> = at_path ts (\<lambda>old. Inr (JObject (filter (\<lambda>e. fst e \<noteq> fst kv) cur))) doc"
      using at by (rule at_path_cong) (simp add: remove_child_def here)
    finally show ?thesis using None by simp
  next
    case (Some v')
    with wf(3) have wf': "wf_json v'" by (rule wf_members_map_of)
    have "apply_ops (diff_ops (snd kv) v' (path @ ''/'' @ escape (fst kv))) doc =
        at_path ts (\<lambda>old. Inr (JObject (member_update (fst kv) v' cur))) doc"
    proof (rule apply_ops_child [where t = "fst kv" and v = "snd kv" and v' = v'])
      show "apply_ops (diff_ops (snd kv) v' (path @ ''/'' @ escape (fst kv))) d =
          at_path (ts @ [fst kv]) (\<lambda>old. Inr v') d"
        if "json_at (ts @ [fst kv]) d = Some (snd kv)" for d
        using Some wf(1) wf' p' that by (rule "6.IH"(1))
      show "json_at ts doc = Some (JObject cur)" by (rule at)
      from here show "json_at [fst kv] (JObject cur) = Some (snd kv)" by simp
      from here show "at_path [fst kv] (\<lambda>old. Inr v') (JObject cur) =
          Inr (JObject (member_update (fst kv) v' cur))"
        by simp
    qed
    with Some show ?thesis by simp
  qed
  have keep: "\<forall>kv'\<in>set rest. map_of ?cur (fst kv') = Some (snd kv')"
  proof
    fix kv' assume in_rest: "kv' \<in> set rest"
    with fresh have "fst kv' \<noteq> fst kv" by (metis image_eqI)
    then have "map_of ?cur (fst kv') = map_of cur (fst kv')"
      by (simp add: member_update_lookup_other map_of_filter_key split: option.splits)
    with others in_rest show "map_of ?cur (fst kv') = Some (snd kv')" by simp
  qed
  have "apply_ops (?first @ diff_members rest ms path) doc =
      at_path ts (\<lambda>old. Inr (JObject (patched rest ms ?cur))) doc"
    using at first
  proof (rule apply_ops_seq)
    fix doc' assume "json_at ts doc' = Some (JObject ?cur)"
    with wf(2,3) p d keep show "apply_ops (diff_members rest ms path) doc' =
        at_path ts (\<lambda>old. Inr (JObject (patched rest ms ?cur))) doc'"
      by (rule "6.IH"(2))
  qed
  then show ?case by simp
qed

lemma patch_diff_roundtrip:
  assumes "wf_json a" and "wf_json b"
  shows "json_patch a (json_diff a b) = Inr b"
  using patch_diff(1) [OF assms, of "[]" "[]" a]
  by (simp add: json_patch_def json_diff_def parse_pointer_def)

subsection \<open>Published diffs\<close>

text \<open>
  C5. On a server reached from construction, whose data type encodes to well-formed
  documents, an \<^verbatim>\<open>Update\<close> that commits (the counter goes from \<open>v\<close> to \<open>v + 1\<close>)
  publishes the text of the diff of the old stored state against the new one, and that
  diff applied to the old stored state, the document the Snapshot at \<open>v\<close> is the text
  of, yields exactly the new stored state, the document the Snapshot at \<open>v + 1\<close> is the
  text of.
\<close>

theorem diff_converges:
  assumes enc: "\<forall>d j. to_json d = Inr j \<longrightarrow> wf_json j"
    and ctor: "Server to_json dump publish data0 = Inr s0"
    and s: "s = updates to_json dump publish s0 ds"
    and upd: "Update to_json dump publish s data = (r, s')"
    and committed: "ver s' = ver s + 1"
  shows "pub s' = pub s @ [dump (json_diff (state s) (state s'))] \<and>
         json_patch (state s) (json_diff (state s) (state s')) = Inr (state s') \<and>
         reply s = dump (state s) \<and> reply s' = dump (state s')"
proof -
  have inv: "stored_inv s"
    unfolding s by (rule updates_stored_inv [OF enc Server_stored_inv [OF enc ctor]])
  have snap: "snapshot_inv dump s"
    unfolding s by (rule updates_inv [OF Server_inv [OF ctor]])
  from upd show ?thesis
  proof (cases rule: Update_cases)
    case (commit j "next")
    from enc commit(1) have "wf_json j" by blast
    with json_assign_Inr(1) [OF commit(2)] have "wf_json next" by simp
    moreover from inv have "wf_json (state s)" by (simp add: stored_inv_def)
    ultimately have "json_patch (state s) (json_diff (state s) next) = Inr next"
      by (intro patch_diff_roundtrip)
    with commit(5) snap show ?thesis by (simp add: snapshot_inv_def)
  qed (use committed in simp_all)
qed

theorem diff_converges_witness:
  "Server to_json_a json_dump publish_ok 1 = Inr scenario_server0 \<and>
   scenario_server0 = updates to_json_a json_dump publish_ok scenario_server0 [] \<and>
   Update to_json_a json_dump publish_ok scenario_server0 2 = (None, scenario_server1) \<and>
   ver scenario_server1 = ver scenario_server0 + 1 \<and>
   pub scenario_server1 =
     pub scenario_server0 @ [json_dump (json_diff scenario_state0 scenario_state1)] \<and>
   json_diff scenario_state0 scenario_state1 =
     JArray [op_replace ''/__syncer_data_version'' (JInt 1), op_replace ''/a'' (JInt 2)] \<and>
   json_patch scenario_state0 (json_diff scenario_state0 scenario_state1) =
     Inr scenario_state1 \<and>
   reply scenario_server0 = json_dump scenario_state0 \<and>
   reply scenario_server1 = json_dump scenario_state1"
proof -
  have s: "scenario_server0 = updates to_json_a json_dump publish_ok scenario_server0 []"
    by (simp add: updates_def)
  have v: "ver scenario_server1 = ver scenario_server0 + 1"
    by (simp add: scenario_server0_def scenario_server1_def)
  have st: "state scenario_server0 = scenario_state0" "state scenario_server1 = scenario_state1"
    by (simp_all add: scenario_server0_def scenario_server1_def)
  from diff_converges [OF to_json_a_wf scenario_construct s scenario_update1 v]
    scenario_construct s scenario_update1 v scenario_diff
  show ?thesis by (simp add: st)
qed

end
